theory Spec2Isabelle
  imports Main
begin

section \<open>The BLS client of \<^verbatim>\<open>src/bls/api.py\<close>\<close>

subsection \<open>Data model\<close>

text \<open>
  One observation of a series as the provider sends it: three strings.
\<close>

record observation =
  obs_year :: string
  obs_period :: string
  obs_value :: string

text \<open>One entry of \<^verbatim>\<open>Results.series\<close>: \<^verbatim>\<open>{"seriesID": ..., "data": [...]}\<close>.\<close>

record raw_series =
  seriesID :: string
  data :: "observation list"

text \<open>
  The form body built at lines 46-52 of \<^verbatim>\<open>_get_json_subset\<close>. The key
  \<^verbatim>\<open>registrationkey\<close> is only present when a key is used.
\<close>

record request =
  seriesid :: string
  startyear :: int
  endyear :: int
  registrationkey :: "string option"

text \<open>
  The decoded JSON body. The source reads it as a dictionary, so each entry it looks
  up may be missing; a missing entry is \<open>None\<close> and the lookup raises
  \<^verbatim>\<open>KeyError\<close>. \<open>Results\<close> is \<open>None\<close> when the body has no entry
  \<^verbatim>\<open>"Results"\<close>, \<open>Some None\<close> when that entry has no \<^verbatim>\<open>"series"\<close>, and
  \<open>Some (Some rs)\<close> when \<^verbatim>\<open>["Results"]["series"]\<close> is the list \<open>rs\<close>.
\<close>

record envelope =
  message :: "string list option"
  status :: "string option"
  Results :: "raw_series list option option"

text \<open>
  The exceptions of the module. The \<^verbatim>\<open>ValueError\<close>s and the
  \<^verbatim>\<open>RuntimeError\<close> carry what their message text embeds:
  \<^item> \<open>MustUseKey\<close>: "Must use API key to retrieve more than 10 years" (line 84);
  \<^item> \<open>NoDataSeries i\<close>: "No data received for series i! ..." (line 101);
  \<^item> \<open>NoDataIds ids\<close>: "No data received for series [ids]! ..." (line 164);
  \<^item> \<open>UnknownPeriod p\<close>: "Unknown period format: p" (line 133);
  \<^item> \<open>NotAFloat s\<close>: the \<^verbatim>\<open>ValueError\<close> of Python's \<^verbatim>\<open>float(s)\<close> (line 181);
  \<^item> \<open>RuntimeError s\<close>: "Got status s" (line 57).
  \<open>TransportError\<close> is whatever \<^verbatim>\<open>requests.post(...).json()\<close> raises and
  \<open>EngineError\<close> whatever the table engine raises.
\<close>

datatype value_error =
    MustUseKey
  | NoDataSeries string
  | NoDataIds "string list"
  | UnknownPeriod string
  | NotAFloat string

datatype error =
    ValueError value_error
  | RuntimeError string
  | KeyError string
  | IndexError
  | TransportError
  | EngineError

text \<open>
  What a call can read and change outside its arguments: the calendar year of
  \<^verbatim>\<open>datetime.date.today()\<close>, the module's \<^verbatim>\<open>_KEY.key\<close>, the physical calls
  sent so far, the records given to \<^verbatim>\<open>log.warning\<close> and the messages given to
  \<^verbatim>\<open>warnings.warn\<close>.
\<close>

record world =
  this_year :: int
  holder_key :: "string option"
  sent :: "request list"
  logged :: "string list"
  warned :: "value_error list"

text \<open>
  The HTTP collaborator: the answer to a form body, \<open>None\<close> when the transport or the
  JSON decoder raises. One call of \<^verbatim>\<open>get_json_series\<close> never sends the same
  form body twice (the start years differ), so a function of the body describes every
  sequence of answers such a call can see.
\<close>

type_synonym transport = "request \<Rightarrow> envelope option"

text \<open>The \<^verbatim>\<open>series\<close> argument: a bare string or a sequence of strings.\<close>

datatype series_arg = Str string | Seq "string list"

subsection \<open>Credential holder (lines 24-37)\<close>

definition set_api_key :: "string \<Rightarrow> world \<Rightarrow> world" where
  "set_api_key k w = w\<lparr>holder_key := Some k\<rparr>"

definition unset_api_key :: "world \<Rightarrow> world" where
  "unset_api_key w = w\<lparr>holder_key := None\<rparr>"

subsection \<open>One physical call (lines 40-58)\<close>

text \<open>Python's \<^verbatim>\<open>sep.join(xs)\<close> on a list of strings.\<close>

fun join :: "string \<Rightarrow> string list \<Rightarrow> string" where
  "join sep [] = []"
| "join sep [x] = x"
| "join sep (x # y # ys) = x @ sep @ join sep (y # ys)"

text \<open>
  \<^verbatim>\<open>",".join(series)\<close>: iterating a bare string yields its characters, each a
  string of length one.
\<close>

fun join_series :: "series_arg \<Rightarrow> string" where
  "join_series (Seq xs) = join '','' xs"
| "join_series (Str s) = join '','' (map (\<lambda>c. [c]) s)"

definition form_body :: "series_arg \<Rightarrow> int \<Rightarrow> int \<Rightarrow> string option \<Rightarrow> request" where
  "form_body series sy ey key =
     \<lparr>seriesid = join_series series, startyear = sy, endyear = ey, registrationkey = key\<rparr>"

text \<open>
  Lines 53-58 on a decoded body: the messages are logged first, then the status is
  checked, then the series list is read. The result is the value returned or the
  exception raised, together with the messages logged.
\<close>

definition check_envelope :: "envelope \<Rightarrow> (error + raw_series list) \<times> string list" where
  "check_envelope resp =
     (case message resp of
        None \<Rightarrow> (Inl (KeyError ''message''), [])
      | Some ms \<Rightarrow>
          (case status resp of
             None \<Rightarrow> (Inl (KeyError ''status''), ms)
           | Some s \<Rightarrow>
               if s \<noteq> ''REQUEST_SUCCEEDED'' then (Inl (RuntimeError s), ms)
               else (case Results resp of
                       None \<Rightarrow> (Inl (KeyError ''Results''), ms)
                     | Some None \<Rightarrow> (Inl (KeyError ''series''), ms)
                     | Some (Some rs) \<Rightarrow> (Inr rs, ms))))"

definition get_json_subset ::
  "transport \<Rightarrow> series_arg \<Rightarrow> int \<Rightarrow> int \<Rightarrow> string option \<Rightarrow> world
     \<Rightarrow> (error + raw_series list) \<times> world" where
  "get_json_subset net series sy ey key w =
     (let req = form_body series sy ey key;
          w1 = w\<lparr>sent := sent w @ [req]\<rparr>
      in case net req of
           None \<Rightarrow> (Inl TransportError, w1)
         | Some resp \<Rightarrow>
             (let (res, ms) = check_envelope resp
              in (res, w1\<lparr>logged := logged w1 @ ms\<rparr>)))"

subsection \<open>Year resolution and pagination (lines 61-96)\<close>

text \<open>Line 71: an explicit key wins over the holder's.\<close>

definition resolve_key :: "string option \<Rightarrow> world \<Rightarrow> string option" where
  "resolve_key key w = (case key of Some k \<Rightarrow> Some k | None \<Rightarrow> holder_key w)"

text \<open>
  Python's truth value of an optional integer, as \<^verbatim>\<open>not startyear\<close> (line 80) and
  \<^verbatim>\<open>startyear and ...\<close> (line 86) read it: \<^verbatim>\<open>None\<close> and \<^verbatim>\<open>0\<close> are false.
\<close>

fun truthy :: "int option \<Rightarrow> bool" where
  "truthy None = False"
| "truthy (Some y) = (y \<noteq> 0)"

text \<open>
  Lines 74-78: the end year. The inner test is only reached when the end year is
  \<^verbatim>\<open>None\<close> or lies after the current year; in its last branch the start year is not
  \<^verbatim>\<open>None\<close> and there is no key.
\<close>

definition resolve_endyear :: "int \<Rightarrow> int option \<Rightarrow> int option \<Rightarrow> string option \<Rightarrow> int" where
  "resolve_endyear thisyear sy ey key =
     (let clamped = (case sy of
                       None \<Rightarrow> thisyear
                     | Some s \<Rightarrow> if key \<noteq> None then thisyear else min (s + 9) thisyear)
      in case ey of
           None \<Rightarrow> clamped
         | Some e \<Rightarrow> if e > thisyear then clamped else e)"

text \<open>Lines 80-81: the start year, from the resolved end year.\<close>

definition resolve_startyear :: "int option \<Rightarrow> int \<Rightarrow> string option \<Rightarrow> int" where
  "resolve_startyear sy ey' key =
     (if \<not> truthy sy then ey' - (if key = None then 9 else 19)
      else (case sy of Some s \<Rightarrow> s | None \<Rightarrow> ey' - (if key = None then 9 else 19)))"

text \<open>
  \<^verbatim>\<open>compiled_results\<close>, a \<^verbatim>\<open>defaultdict(list)\<close>: an association list in
  insertion order. \<open>extend_compiled\<close> is \<^verbatim>\<open>compiled_results[i].extend(xs)\<close>:
  a new key is entered at the end with the empty list, then extended.
\<close>

type_synonym compiled = "(string \<times> observation list) list"

fun extend_compiled :: "compiled \<Rightarrow> string \<Rightarrow> observation list \<Rightarrow> compiled" where
  "extend_compiled [] i xs = [(i, xs)]"
| "extend_compiled ((k, v) # rest) i xs =
     (if k = i then (k, v @ xs) # rest else (k, v) # extend_compiled rest i xs)"

text \<open>The \<^verbatim>\<open>for result in ...\<close> loop of lines 90-91.\<close>

fun compile_results :: "compiled \<Rightarrow> raw_series list \<Rightarrow> compiled" where
  "compile_results cr [] = cr"
| "compile_results cr (r # rs) =
     compile_results (extend_compiled cr (seriesID r) (data r)) rs"

text \<open>
  The \<^verbatim>\<open>while True\<close> loop of lines 89-94, entered with the current window
  \<open>(sub_start, sub_end)\<close>. An exception of a physical call leaves the loop at once.
\<close>

function paginate ::
  "transport \<Rightarrow> series_arg \<Rightarrow> string option \<Rightarrow> int \<Rightarrow> int \<Rightarrow> int \<Rightarrow> compiled \<Rightarrow> world
     \<Rightarrow> (error + compiled) \<times> world" where
  "paginate net series key ey sub_start sub_end cr w =
     (case get_json_subset net series sub_start sub_end key w of
        (Inl e, w') \<Rightarrow> (Inl e, w')
      | (Inr results, w') \<Rightarrow>
          (let cr' = compile_results cr results;
               sub_start' = sub_end + 1;
               sub_end' = min (sub_end + 20) ey
           in if sub_start' > ey then (Inr cr', w')
              else paginate net series key ey sub_start' sub_end' cr' w'))"
  by pat_completeness auto
termination
  by (relation "measure (\<lambda>(net, series, key, ey, sub_start, sub_end, cr, w). nat (ey - sub_end))")
     auto

text \<open>Lines 67-68: a bare string becomes a sequence of one element.\<close>

fun as_sequence :: "series_arg \<Rightarrow> series_arg" where
  "as_sequence (Str s) = Seq [s]"
| "as_sequence (Seq xs) = Seq xs"

text \<open>
  \<^verbatim>\<open>get_json_series\<close>. The year arguments are taken after the \<^verbatim>\<open>int(...)\<close>
  conversions of lines 69-70, which keep \<^verbatim>\<open>None\<close>.
\<close>

definition get_json_series ::
  "transport \<Rightarrow> series_arg \<Rightarrow> int option \<Rightarrow> int option \<Rightarrow> string option \<Rightarrow> world
     \<Rightarrow> (error + raw_series list) \<times> world" where
  "get_json_series net series sy ey key0 w =
     (let series' = as_sequence series;
          key = resolve_key key0 w;
          thisyear = this_year w;
          ey' = resolve_endyear thisyear sy ey key;
          sy' = resolve_startyear sy ey' key
      in if key = None \<and> ey' - sy' \<ge> 10 then (Inl (ValueError MustUseKey), w)
         else if sy' \<noteq> 0 \<and> ey' - sy' \<ge> 20 then
           (case paginate net series' key ey' sy' (sy' + 18) [] w of
              (Inl e, w') \<Rightarrow> (Inl e, w')
            | (Inr cr, w') \<Rightarrow> (Inr (map (\<lambda>(i, j). \<lparr>seriesID = i, data = j\<rparr>) cr), w'))
         else get_json_subset net series' sy' ey' key w)"

subsection \<open>The table engine\<close>

text \<open>
  The repository leaves dates, periods, floating point numbers and tables to pandas.
  What the source asks of it is taken as a parameter wherever the source only passes
  values through:
  \<^item> \<open>to_datetime\<close> is \<^verbatim>\<open>pd.to_datetime\<close> on a column of strings, \<open>None\<close> when it
    raises (it sees the whole column, so its answer for one row may depend on the others);
  \<^item> \<open>to_period\<close> is \<^verbatim>\<open>.to_period(freq=...)\<close> on one index entry;
  \<^item> \<open>to_float\<close> is Python's \<^verbatim>\<open>float\<close> on a string, \<open>None\<close> when it raises.
  \<open>'d\<close> is the type of timestamps, \<open>'p\<close> the type of periods, \<open>'f\<close> of floats.
\<close>

record ('d, 'p, 'f) engine =
  to_datetime :: "string list \<Rightarrow> 'd list option"
  to_period :: "string \<Rightarrow> 'd \<Rightarrow> 'p"
  to_float :: "string \<Rightarrow> 'f option"

text \<open>
  \<^verbatim>\<open>.str.replace(pat, rep)\<close> with a literal, non-empty pattern: every occurrence,
  from the left, without overlaps.
\<close>

function str_replace :: "string \<Rightarrow> string \<Rightarrow> string \<Rightarrow> string" where
  "str_replace pat rep [] = []"
| "str_replace pat rep (c # cs) =
     (if pat \<noteq> [] \<and> take (length pat) (c # cs) = pat
      then rep @ str_replace pat rep (drop (length pat) (c # cs))
      else c # str_replace pat rep cs)"
  by pat_completeness auto
termination
  by (relation "measure (\<lambda>(pat, rep, s). length s)") auto

text \<open>
  A series as \<^verbatim>\<open>parse_series\<close> returns it: the rows in order, each an index entry
  and a value. A table: the index and the columns in order, each column a name and one
  cell for each index entry; \<open>None\<close> is the cell pandas fills with \<^verbatim>\<open>NaN\<close> when a
  series has no row for an index entry.
\<close>

type_synonym ('p, 'v) pd_series = "('p \<times> 'v) list"

record ('p, 'c) frame =
  frame_index :: "'p list"
  frame_columns :: "(string \<times> 'c list) list"

text \<open>
  \<^verbatim>\<open>df.assign(date=pd.to_datetime(strs))\<close> on the rows of a series: the dates are
  computed for every row, and a column of another length than the table is refused.
\<close>

definition assign_date ::
  "('d, 'p, 'f) engine \<Rightarrow> string list \<Rightarrow> observation list
     \<Rightarrow> error + ('d \<times> observation) list" where
  "assign_date eng strs df =
     (case to_datetime eng strs of
        None \<Rightarrow> Inl EngineError
      | Some ds \<Rightarrow> if length ds \<noteq> length df then Inl EngineError else Inr (zip ds df))"

text \<open>\<^verbatim>\<open>.set_index("date").to_period(freq=...)["value"]\<close>.\<close>

definition index_by_period ::
  "('d, 'p, 'f) engine \<Rightarrow> string \<Rightarrow> ('d \<times> observation) list \<Rightarrow> ('p, string) pd_series" where
  "index_by_period eng freq rows = map (\<lambda>(d, ob). (to_period eng freq d, obs_value ob)) rows"

subsection \<open>Series parser (lines 99-133)\<close>

definition parse_series ::
  "('d, 'p, 'f) engine \<Rightarrow> raw_series \<Rightarrow> error + ('p, string) pd_series" where
  "parse_series eng series =
     (if length (data series) = 0 then Inl (ValueError (NoDataSeries (seriesID series)))
      else
        let df = data series in
        case obs_period (hd df) of
          [] \<Rightarrow> Inl IndexError
        | freq # _ \<Rightarrow>
            if freq = CHR ''A'' then
              (case assign_date eng (map obs_year df) df of
                 Inl e \<Rightarrow> Inl e
               | Inr rows \<Rightarrow> Inr (index_by_period eng ''A-JAN'' rows))
            else if freq = CHR ''Q'' then
              (case assign_date eng
                      (map (\<lambda>ob. obs_year ob @ str_replace ''Q0'' ''Q'' (obs_period ob)) df) df of
                 Inl e \<Rightarrow> Inl e
               | Inr rows \<Rightarrow> Inr (index_by_period eng ''Q'' rows))
            else if freq = CHR ''M'' then
              (case assign_date eng
                      (map (\<lambda>ob. obs_year ob @ str_replace ''M'' ''-'' (obs_period ob)) df) df of
                 Inl e \<Rightarrow> Inl e
               | Inr rows \<Rightarrow>
                   Inr (index_by_period eng ''M''
                          (filter (\<lambda>(d, ob). obs_period ob \<noteq> ''M13'') rows)))
            else Inl (ValueError (UnknownPeriod (obs_period (hd df)))))"

subsection \<open>Result assembler (lines 136-186)\<close>

text \<open>
  A Python dictionary in insertion order; storing under a key that is present replaces
  the value and keeps the key's place.
\<close>

fun dict_set :: "(string \<times> 'v) list \<Rightarrow> string \<Rightarrow> 'v \<Rightarrow> (string \<times> 'v) list" where
  "dict_set [] k v = [(k, v)]"
| "dict_set ((k', v') # rest) k v =
     (if k' = k then (k, v) # rest else (k', v') # dict_set rest k v)"

text \<open>
  The dictionary comprehension of lines 175-179, over the results that have data: the
  first series that fails to parse ends it.
\<close>

fun parse_all ::
  "('d, 'p, 'f) engine \<Rightarrow> (string \<times> ('p, string) pd_series) list \<Rightarrow> raw_series list
     \<Rightarrow> error + (string \<times> ('p, string) pd_series) list" where
  "parse_all eng d [] = Inr d"
| "parse_all eng d (r # rs) =
     (case parse_series eng r of
        Inl e \<Rightarrow> Inl e
      | Inr s \<Rightarrow> parse_all eng (dict_set d (seriesID r) s) rs)"

text \<open>
  \<^verbatim>\<open>pd.DataFrame(dict of series)\<close>. Series that all carry the same index keep it as
  it is. Otherwise the series are aligned on the union of their index entries, a cell
  being empty where a series has no row. The alignment is modelled for series without
  repeated index entries only: where the indexes differ and a series repeats an entry
  this model gives up with an error, whatever table pandas builds there.
\<close>

definition frame_of_dict ::
  "(string \<times> ('p::linorder, 'v) pd_series) list \<Rightarrow> error + ('p, 'v option) frame" where
  "frame_of_dict d =
     (case d of
        [] \<Rightarrow> Inr \<lparr>frame_index = [], frame_columns = []\<rparr>
      | (k0, s0) # rest \<Rightarrow>
          if list_all (\<lambda>(k, s). map fst s = map fst s0) rest then
            Inr \<lparr>frame_index = map fst s0,
                 frame_columns = map (\<lambda>(k, s). (k, map (\<lambda>(p, v). Some v) s)) d\<rparr>
          else if list_ex (\<lambda>(k, s). \<not> distinct (map fst s)) d then Inl EngineError
          else
            let idx = sort (remdups (concat (map (\<lambda>(k, s). map fst s) d)))
            in Inr \<lparr>frame_index = idx,
                    frame_columns = map (\<lambda>(k, s). (k, map (map_of s) idx)) d\<rparr>)"

text \<open>
  \<^verbatim>\<open>.map(float)\<close>, column by column: an empty cell stays empty, a string that
  \<^verbatim>\<open>float\<close> refuses raises its \<^verbatim>\<open>ValueError\<close>.
\<close>

fun cast_cells :: "(string \<Rightarrow> 'f option) \<Rightarrow> string option list \<Rightarrow> error + 'f option list" where
  "cast_cells f [] = Inr []"
| "cast_cells f (None # cs) =
     (case cast_cells f cs of Inl e \<Rightarrow> Inl e | Inr xs \<Rightarrow> Inr (None # xs))"
| "cast_cells f (Some s # cs) =
     (case f s of
        None \<Rightarrow> Inl (ValueError (NotAFloat s))
      | Some x \<Rightarrow> (case cast_cells f cs of Inl e \<Rightarrow> Inl e | Inr xs \<Rightarrow> Inr (Some x # xs)))"

fun cast_columns ::
  "(string \<Rightarrow> 'f option) \<Rightarrow> (string \<times> string option list) list
     \<Rightarrow> error + (string \<times> 'f option list) list" where
  "cast_columns f [] = Inr []"
| "cast_columns f ((k, cs) # rest) =
     (case cast_cells f cs of
        Inl e \<Rightarrow> Inl e
      | Inr xs \<Rightarrow> (case cast_columns f rest of Inl e \<Rightarrow> Inl e | Inr ys \<Rightarrow> Inr ((k, xs) # ys)))"

definition map_float ::
  "('d, 'p, 'f) engine \<Rightarrow> ('p, string option) frame \<Rightarrow> error + ('p, 'f option) frame" where
  "map_float eng fr =
     (case cast_columns (to_float eng) (frame_columns fr) of
        Inl e \<Rightarrow> Inl e
      | Inr cols \<Rightarrow> Inr \<lparr>frame_index = frame_index fr, frame_columns = cols\<rparr>)"

text \<open>
  \<^verbatim>\<open>.sort_index()\<close>: the row numbers are sorted by their index entry, the rows
  follow. Rows with equal index entries keep their order here; pandas does not promise
  it. The periods of one parsed series have one frequency and are ordered; an index
  that mixes frequencies, which pandas refuses to sort, is ordered here all the same.
\<close>

definition sort_index :: "('p::linorder, 'c) frame \<Rightarrow> ('p, 'c) frame" where
  "sort_index fr =
     (let idx = frame_index fr;
          order = sort_key (\<lambda>i. idx ! i) [0..<length idx]
      in \<lparr>frame_index = map (\<lambda>i. idx ! i) order,
          frame_columns = map (\<lambda>(k, cs). (k, map (\<lambda>i. cs ! i) order)) (frame_columns fr)\<rparr>)"

text \<open>What \<^verbatim>\<open>get_series\<close> returns: a table, or one column of it as a series.\<close>

datatype ('p, 'f) fetched =
    Table "('p, 'f option) frame"
  | Series "('p, 'f option) pd_series"

fun is_str :: "series_arg \<Rightarrow> bool" where
  "is_str (Str s) = True"
| "is_str (Seq xs) = False"

text \<open>Python's \<^verbatim>\<open>len(series)\<close>.\<close>

fun len :: "series_arg \<Rightarrow> nat" where
  "len (Str s) = length s"
| "len (Seq xs) = length xs"

definition get_series ::
  "('d, 'p::linorder, 'f) engine \<Rightarrow> transport \<Rightarrow> series_arg \<Rightarrow> int option \<Rightarrow> int option
     \<Rightarrow> string option \<Rightarrow> string \<Rightarrow> world \<Rightarrow> (error + ('p, 'f) fetched) \<times> world" where
  "get_series eng net series sy ey key errors w =
     (case get_json_series net series sy ey key w of
        (Inl e, w1) \<Rightarrow> (Inl e, w1)
      | (Inr results, w1) \<Rightarrow>
          let invalid_ids = map seriesID (filter (\<lambda>res. data res = []) results)
          in if invalid_ids \<noteq> [] \<and>
                (is_str series \<or> length invalid_ids = len series \<or> errors = ''raise'')
             then (Inl (ValueError (NoDataIds invalid_ids)), w1)
             else
               let w2 = (if invalid_ids \<noteq> []
                         then w1\<lparr>warned := warned w1 @ [NoDataIds invalid_ids]\<rparr> else w1)
               in (case parse_all eng [] (filter (\<lambda>result. data result \<noteq> []) results) of
                     Inl e \<Rightarrow> (Inl e, w2)
                   | Inr d \<Rightarrow>
                       (case frame_of_dict d of
                          Inl e \<Rightarrow> (Inl e, w2)
                        | Inr fr \<Rightarrow>
                            (case map_float eng fr of
                               Inl e \<Rightarrow> (Inl e, w2)
                             | Inr fr' \<Rightarrow>
                                 let df = sort_index fr'
                                 in if is_str series then
                                      (case frame_columns df of
                                         [] \<Rightarrow> (Inl IndexError, w2)
                                       | (k, cs) # _ \<Rightarrow> (Inr (Series (zip (frame_index df) cs)), w2))
                                    else (Inr (Table df), w2)))))"

subsection \<open>Notions used to state the properties\<close>

text \<open>
  What \<^verbatim>\<open>_get_json_subset\<close> returns or raises for a form body, and what it logs:
  both depend on the answer of the transport only.
\<close>

definition answer :: "transport \<Rightarrow> request \<Rightarrow> error + raw_series list" where
  "answer net req =
     (case net req of None \<Rightarrow> Inl TransportError | Some resp \<Rightarrow> fst (check_envelope resp))"

definition replies :: "transport \<Rightarrow> request \<Rightarrow> string list" where
  "replies net req = (case net req of None \<Rightarrow> [] | Some resp \<Rightarrow> snd (check_envelope resp))"

text \<open>
  The year windows the loop of lines 88-94 walks through when no call fails, from the
  window \<open>(a, b)\<close> on: the same recurrence without the calls.
\<close>

function windows :: "int \<Rightarrow> int \<Rightarrow> int \<Rightarrow> (int \<times> int) list" where
  "windows ey a b = (a, b) # (if b + 1 > ey then [] else windows ey (b + 1) (min (b + 20) ey))"
  by pat_completeness auto
termination
  by (relation "measure (\<lambda>(ey, a, b). nat (ey - b))") auto

text \<open>Each window starts one year after the one before and ends at most 20 years later.\<close>

fun consecutive :: "int \<Rightarrow> (int \<times> int) list \<Rightarrow> bool" where
  "consecutive ey [] = True"
| "consecutive ey [p] = True"
| "consecutive ey (p # q # rest) =
     (fst q = snd p + 1 \<and> snd q = min (snd p + 20) ey \<and> consecutive ey (q # rest))"

text \<open>The list held for a key of \<^verbatim>\<open>compiled_results\<close>, empty for a key not entered.\<close>

definition lookup_compiled :: "compiled \<Rightarrow> string \<Rightarrow> observation list" where
  "lookup_compiled cr i = (case map_of cr i of None \<Rightarrow> [] | Some v \<Rightarrow> v)"

subsection \<open>Example inputs\<close>

text \<open>
  A world in the year 2026 with no key held, and a transport that answers every form
  body with one notice and one annual observation for the series it names; the year of
  the observation tells the window it came from.
\<close>

definition demo_world :: world where
  "demo_world = \<lparr>this_year = 2026, holder_key = None, sent = [], logged = [], warned = []\<rparr>"

definition demo_obs :: "string \<Rightarrow> string \<Rightarrow> string \<Rightarrow> observation" where
  "demo_obs y p v = \<lparr>obs_year = y, obs_period = p, obs_value = v\<rparr>"

definition demo_net :: transport where
  "demo_net req =
     Some \<lparr>message = Some [''notice''], status = Some ''REQUEST_SUCCEEDED'',
           Results = Some (Some [\<lparr>seriesID = seriesid req,
             data = [demo_obs (if startyear req = 1980 then ''1998''
                               else if startyear req = 1999 then ''2018'' else ''2026'')
                       ''A01'' ''1'']\<rparr>])\<rparr>"

text \<open>
  A transport whose answer reports a failure, with a notice and an entry
  \<^verbatim>\<open>"Results"\<close> that holds no series.
\<close>

definition failing_net :: transport where
  "failing_net req =
     Some \<lparr>message = Some [''daily threshold reached''], status = Some ''REQUEST_NOT_PROCESSED'',
           Results = Some None\<rparr>"

text \<open>
  What a keyed call for 1980 onwards sends to \<open>demo_net\<close> in 2026, and what it
  returns.
\<close>

definition demo_sent :: "request list" where
  "demo_sent = [form_body (Seq [''S'']) 1980 1998 (Some ''k''),
                form_body (Seq [''S'']) 1999 2018 (Some ''k''),
                form_body (Seq [''S'']) 2019 2026 (Some ''k'')]"

definition demo_merged :: "raw_series list" where
  "demo_merged = [\<lparr>seriesID = ''S'',
                   data = [demo_obs ''1998'' ''A01'' ''1'', demo_obs ''2018'' ''A01'' ''1'',
                           demo_obs ''2026'' ''A01'' ''1'']\<rparr>]"

subsection \<open>An example engine\<close>

text \<open>
  An engine to run the parser on. It reads the three forms of date string the parser
  builds, \<^verbatim>\<open>YYYY\<close>, \<^verbatim>\<open>YYYYQn\<close> and \<^verbatim>\<open>YYYY-nn\<close>, and like
  \<^verbatim>\<open>pd.to_datetime\<close> it refuses a quarter outside 1 to 4 and a month outside 1 to
  12, and with it the whole column. A timestamp is a year and a number within the year;
  a period is the count of months, quarters or years. A float is a decimal, written as
  the digits without the point and the number of digits after the point, so that
  \<^verbatim>\<open>"3.5"\<close> is \<open>(35, 1)\<close>; strings that are not a signed decimal are refused.
\<close>

fun digits_value :: "nat \<Rightarrow> string \<Rightarrow> nat option" where
  "digits_value acc [] = Some acc"
| "digits_value acc (c # cs) =
     (let n = (of_char c :: nat)
      in if 48 \<le> n \<and> n \<le> 57 then digits_value (10 * acc + (n - 48)) cs else None)"

definition nat_of_digits :: "string \<Rightarrow> nat option" where
  "nat_of_digits s = (if s = [] then None else digits_value 0 s)"

definition demo_date :: "string \<Rightarrow> (nat \<times> nat) option" where
  "demo_date s =
     (case nat_of_digits (take 4 s) of
        None \<Rightarrow> None
      | Some y \<Rightarrow>
          (case drop 4 s of
             [] \<Rightarrow> Some (y, 1)
           | c # ds \<Rightarrow>
               if c = CHR ''Q'' \<or> c = CHR ''-''
               then (case nat_of_digits ds of
                       None \<Rightarrow> None
                     | Some k \<Rightarrow>
                         if 1 \<le> k \<and> k \<le> (if c = CHR ''Q'' then 4 else 12)
                         then Some (y, k) else None)
               else None))"

definition demo_float :: "string \<Rightarrow> (int \<times> nat) option" where
  "demo_float s =
     (let neg = (s \<noteq> [] \<and> hd s = CHR ''-'');
          t = (if neg then tl s else s);
          whole = takeWhile (\<lambda>c. c \<noteq> CHR ''.'') t;
          frac = (case dropWhile (\<lambda>c. c \<noteq> CHR ''.'') t of [] \<Rightarrow> [] | _ # f \<Rightarrow> f)
      in case nat_of_digits (whole @ frac) of
           None \<Rightarrow> None
         | Some m \<Rightarrow> Some (if neg then - int m else int m, length frac))"

definition demo_engine :: "(nat \<times> nat, nat, int \<times> nat) engine" where
  "demo_engine =
     \<lparr>to_datetime = (\<lambda>strs. those (map demo_date strs)),
      to_period = (\<lambda>freq (y, k). if freq = ''M'' then 12 * y + k
                                  else if freq = ''Q'' then 4 * y + k else y),
      to_float = demo_float\<rparr>"

text \<open>
  Three months of 2020 as the provider lists them, latest first, and the same series
  with the row of the annual average, code \<^verbatim>\<open>M13\<close>, in front.
\<close>

definition demo_months :: raw_series where
  "demo_months =
     \<lparr>seriesID = ''LNS14'',
      data = [demo_obs ''2020'' ''M03'' ''4.4'', demo_obs ''2020'' ''M02'' ''3.5'',
              demo_obs ''2020'' ''M01'' ''3.6'']\<rparr>"

definition demo_monthly :: raw_series where
  "demo_monthly =
     \<lparr>seriesID = ''LNS14'',
      data = demo_obs ''2020'' ''M13'' ''8.1'' # data demo_months\<rparr>"

text \<open>A series whose first row is monthly and whose later rows carry other codes.\<close>

definition demo_mixed :: raw_series where
  "demo_mixed =
     \<lparr>seriesID = ''MIX'',
      data = [demo_obs ''2020'' ''M02'' ''3'', demo_obs ''2020'' ''Q01'' ''4'',
              demo_obs ''2020'' ''X'' ''5'']\<rparr>"

text \<open>A transport that answers every form body with the three months above.\<close>

definition monthly_net :: transport where
  "monthly_net req =
     Some \<lparr>message = Some [], status = Some ''REQUEST_SUCCEEDED'',
           Results = Some (Some [demo_months])\<rparr>"

text \<open>
  A transport for the request of the id \<^verbatim>\<open>A\<close> twice: it answers with one entry
  for each requested id, both without data, as the provider reports a series it does
  not know.
\<close>

definition twice_empty_net :: transport where
  "twice_empty_net req =
     Some \<lparr>message = Some [], status = Some ''REQUEST_SUCCEEDED'',
           Results = Some (Some [\<lparr>seriesID = ''A'', data = []\<rparr>,
                                 \<lparr>seriesID = ''A'', data = []\<rparr>])\<rparr>"

section \<open>Properties\<close>

subsection \<open>Physical calls and the pagination loop\<close>

declare windows.simps [simp del]

declare paginate.simps [simp del]

lemma get_json_subset_eq:
  "get_json_subset net series a b key w =
     (answer net (form_body series a b key),
      w\<lparr>sent := sent w @ [form_body series a b key],
        logged := logged w @ replies net (form_body series a b key)\<rparr>)"
  by (simp add: get_json_subset_def answer_def replies_def Let_def split: option.splits prod.splits)


lemma paginate_sent:
  "paginate net series key ey a b cr w = (res, w') \<Longrightarrow>
     \<exists>n. 0 < n \<and> n \<le> length (windows ey a b) \<and>
         sent w' = sent w @ map (\<lambda>(x, y). form_body series x y key) (take n (windows ey a b)) \<and>
         (case res of Inr cr' \<Rightarrow> n = length (windows ey a b)
            | Inl e \<Rightarrow> answer net (last (sent w')) = Inl e)"
proof (induction net series key ey a b cr w arbitrary: res w' rule: paginate.induct)
  case (1 net series key ey a b cr w)
  let ?req = "form_body series a b key"
  let ?w1 = "w\<lparr>sent := sent w @ [?req], logged := logged w @ replies net ?req\<rparr>"
  show ?case
  proof (cases "answer net ?req")
    case (Inl e)
    with "1.prems" have "res = Inl e" "w' = ?w1"
      by (simp_all add: paginate.simps [of net series key ey a b] get_json_subset_eq)
    then show ?thesis using Inl
      by (intro exI [of _ 1]) (simp add: windows.simps [of ey a b])
  next
    case (Inr results)
    show ?thesis
    proof (cases "b + 1 > ey")
      case True
      with Inr "1.prems" have "res = Inr (compile_results cr results)" "w' = ?w1"
        by (simp_all add: paginate.simps [of net series key ey a b] get_json_subset_eq Let_def)
      then show ?thesis using True
        by (intro exI [of _ 1]) (simp add: windows.simps [of ey a b])
    next
      case False
      with Inr "1.prems" have rec:
        "paginate net series key ey (b + 1) (min (b + 20) ey) (compile_results cr results) ?w1 = (res, w')"
        by (simp add: paginate.simps [of net series key ey a b] get_json_subset_eq Let_def)
      have "get_json_subset net series a b key w = (Inr results, ?w1)"
        using Inr by (simp add: get_json_subset_eq)
      moreover have "\<not> ey < b + 1" using False by simp
      ultimately have "\<exists>n. 0 < n \<and> n \<le> length (windows ey (b + 1) (min (b + 20) ey)) \<and>
         sent w' = sent ?w1 @ map (\<lambda>(x, y). form_body series x y key) (take n (windows ey (b + 1) (min (b + 20) ey))) \<and>
         (case res of Inr cr' \<Rightarrow> n = length (windows ey (b + 1) (min (b + 20) ey))
            | Inl e \<Rightarrow> answer net (last (sent w')) = Inl e)"
        using "1.IH" [OF _ refl refl refl refl _ rec] by simp
      then
      obtain n where n: "0 < n" "n \<le> length (windows ey (b + 1) (min (b + 20) ey))"
        "sent w' = sent ?w1 @ map (\<lambda>(x, y). form_body series x y key) (take n (windows ey (b + 1) (min (b + 20) ey)))"
        "(case res of Inr cr' \<Rightarrow> n = length (windows ey (b + 1) (min (b + 20) ey))
            | Inl e \<Rightarrow> answer net (last (sent w')) = Inl e)"
        by auto
      show ?thesis using n False
        by (intro exI [of _ "Suc n"]) (auto simp: windows.simps [of ey a b] split: sum.splits)
    qed
  qed
qed


lemma paginate_frame:
  "paginate net series key ey a b cr w = (res, w') \<Longrightarrow>
     this_year w' = this_year w \<and> holder_key w' = holder_key w \<and> warned w' = warned w"
proof (induction net series key ey a b cr w arbitrary: res w' rule: paginate.induct)
  case (1 net series key ey a b cr w)
  let ?req = "form_body series a b key"
  let ?w1 = "w\<lparr>sent := sent w @ [?req], logged := logged w @ replies net ?req\<rparr>"
  show ?case
  proof (cases "answer net ?req")
    case (Inl e)
    with "1.prems" show ?thesis
      by (auto simp add: paginate.simps [of net series key ey a b] get_json_subset_eq)
  next
    case (Inr results)
    show ?thesis
    proof (cases "b + 1 > ey")
      case True
      with Inr "1.prems" show ?thesis
        by (auto simp add: paginate.simps [of net series key ey a b] get_json_subset_eq Let_def)
    next
      case False
      with Inr "1.prems" have rec:
        "paginate net series key ey (b + 1) (min (b + 20) ey) (compile_results cr results) ?w1 = (res, w')"
        by (simp add: paginate.simps [of net series key ey a b] get_json_subset_eq Let_def)
      have "get_json_subset net series a b key w = (Inr results, ?w1)"
        using Inr by (simp add: get_json_subset_eq)
      moreover have "\<not> ey < b + 1" using False by simp
      ultimately have "this_year w' = this_year ?w1 \<and> holder_key w' = holder_key ?w1 \<and> warned w' = warned ?w1"
        using "1.IH" [OF _ refl refl refl refl _ rec] by simp
      then show ?thesis by simp
    qed
  qed
qed

lemma compile_results_append:
  "compile_results cr (xs @ ys) = compile_results (compile_results cr xs) ys"
  by (induction xs arbitrary: cr) simp_all

lemma paginate_result:
  "paginate net series key ey a b cr w = (Inr cr', w') \<Longrightarrow>
     \<exists>rss. map (\<lambda>(x, y). answer net (form_body series x y key)) (windows ey a b) = map Inr rss \<and>
           cr' = compile_results cr (concat rss)"
proof (induction net series key ey a b cr w arbitrary: w' rule: paginate.induct)
  case (1 net series key ey a b cr w)
  let ?req = "form_body series a b key"
  let ?w1 = "w\<lparr>sent := sent w @ [?req], logged := logged w @ replies net ?req\<rparr>"
  show ?case
  proof (cases "answer net ?req")
    case (Inl e)
    with "1.prems" show ?thesis
      by (simp add: paginate.simps [of net series key ey a b] get_json_subset_eq)
  next
    case (Inr results)
    show ?thesis
    proof (cases "b + 1 > ey")
      case True
      with Inr "1.prems" have "cr' = compile_results cr results"
        by (simp add: paginate.simps [of net series key ey a b] get_json_subset_eq Let_def)
      then show ?thesis using True Inr
        by (intro exI [of _ "[results]"]) (simp add: windows.simps [of ey a b])
    next
      case False
      with Inr "1.prems" have rec:
        "paginate net series key ey (b + 1) (min (b + 20) ey) (compile_results cr results) ?w1 = (Inr cr', w')"
        by (simp add: paginate.simps [of net series key ey a b] get_json_subset_eq Let_def)
      have "get_json_subset net series a b key w = (Inr results, ?w1)"
        using Inr by (simp add: get_json_subset_eq)
      moreover have "\<not> ey < b + 1" using False by simp
      ultimately obtain rss where rss:
        "map (\<lambda>(x, y). answer net (form_body series x y key)) (windows ey (b + 1) (min (b + 20) ey)) = map Inr rss"
        "cr' = compile_results (compile_results cr results) (concat rss)"
        using "1.IH" [OF _ refl refl refl refl _ rec] by auto
      show ?thesis using rss False Inr
        by (intro exI [of _ "results # rss"])
           (simp add: windows.simps [of ey a b] compile_results_append)
    qed
  qed
qed

subsection \<open>The windows of the pagination loop\<close>

lemma windows_stop: "b + 1 > ey \<Longrightarrow> windows ey a b = [(a, b)]"
  by (simp add: windows.simps [of ey a b])

lemma windows_step:
  "\<not> b + 1 > ey \<Longrightarrow> windows ey a b = (a, b) # windows ey (b + 1) (min (b + 20) ey)"
  by (simp add: windows.simps [of ey a b])

lemma windows_nonempty: "windows ey a b \<noteq> []"
  by (simp add: windows.simps [of ey a b])

lemma windows_hd: "hd (windows ey a b) = (a, b)"
  by (simp add: windows.simps [of ey a b])

lemma windows_consecutive: "consecutive ey (windows ey a b)"
proof (induction ey a b rule: windows.induct)
  case (1 ey a b)
  show ?case
  proof (cases "b + 1 > ey")
    case True
    then show ?thesis by (simp add: windows.simps [of ey a b])
  next
    case False
    then have "consecutive ey (windows ey (b + 1) (min (b + 20) ey))"
      using "1.IH" by simp
    moreover obtain rest where "windows ey (b + 1) (min (b + 20) ey) = (b + 1, min (b + 20) ey) # rest"
      using windows.simps [of ey "b + 1" "min (b + 20) ey"] by blast
    ultimately show ?thesis
      unfolding windows_step [OF False, of a] by simp
  qed
qed

lemma consecutive_nth:
  "consecutive ey ws \<Longrightarrow> Suc i < length ws \<Longrightarrow>
     fst (ws ! Suc i) = snd (ws ! i) + 1 \<and> snd (ws ! Suc i) = min (snd (ws ! i) + 20) ey"
proof (induction ey ws arbitrary: i rule: consecutive.induct)
  case (3 ey p q rest)
  then show ?case by (cases i) auto
qed simp_all

lemma consecutive_take: "consecutive ey ws \<Longrightarrow> consecutive ey (take n ws)"
proof (induction ey ws arbitrary: n rule: consecutive.induct)
  case (3 ey p q rest)
  show ?case
  proof (cases n)
    case 0 then show ?thesis by simp
  next
    case (Suc m)
    show ?thesis
    proof (cases m)
      case 0 with Suc show ?thesis by simp
    next
      case (Suc k)
      with 3 \<open>n = Suc m\<close> show ?thesis
        using "3.IH" [of "Suc k"] by simp
    qed
  qed
next
  case (2 ey p)
  then show ?case by (cases n) simp_all
qed simp

lemma windows_span:
  "b - a \<le> 19 \<Longrightarrow> (x, y) \<in> set (windows ey a b) \<Longrightarrow> y - x \<le> 19"
proof (induction ey a b rule: windows.induct)
  case (1 ey a b)
  show ?case
  proof (cases "b + 1 > ey")
    case True
    with "1.prems" show ?thesis by (simp add: windows.simps [of ey a b])
  next
    case False
    with "1.prems" have "(x, y) = (a, b) \<or> (x, y) \<in> set (windows ey (b + 1) (min (b + 20) ey))"
      by (simp add: windows.simps [of ey a b])
    then show ?thesis
    proof
      assume "(x, y) = (a, b)" with "1.prems" show ?thesis by simp
    next
      assume "(x, y) \<in> set (windows ey (b + 1) (min (b + 20) ey))"
      with "1.IH" False show ?thesis by simp
    qed
  qed
qed

lemma windows_last: "b \<le> ey \<Longrightarrow> snd (last (windows ey a b)) = ey"
proof (induction ey a b rule: windows.induct)
  case (1 ey a b)
  show ?case
  proof (cases "b + 1 > ey")
    case True
    with "1.prems" show ?thesis unfolding windows_stop [OF True, of a] by simp
  next
    case False
    then have "snd (last (windows ey (b + 1) (min (b + 20) ey))) = ey"
      using "1.IH" by simp
    then show ?thesis
      unfolding windows_step [OF False, of a] by (simp add: windows_nonempty)
  qed
qed

lemma windows_cover:
  "a \<le> b \<Longrightarrow> b \<le> ey \<Longrightarrow>
     length (filter (\<lambda>(x, z). x \<le> y \<and> y \<le> z) (windows ey a b)) = (if a \<le> y \<and> y \<le> ey then 1 else 0)"
proof (induction ey a b rule: windows.induct)
  case (1 ey a b)
  show ?case
  proof (cases "b + 1 > ey")
    case True
    with "1.prems" show ?thesis unfolding windows_stop [OF True, of a] by auto
  next
    case False
    then have "length (filter (\<lambda>(x, z). x \<le> y \<and> y \<le> z) (windows ey (b + 1) (min (b + 20) ey)))
        = (if b + 1 \<le> y \<and> y \<le> ey then 1 else 0)"
      using "1.IH" by simp
    then show ?thesis using False "1.prems"
      unfolding windows_step [OF False, of a] by auto
  qed
qed

lemma windows_start_le:
  "a \<le> ey \<Longrightarrow> (x, y) \<in> set (windows ey a b) \<Longrightarrow> x \<le> ey"
proof (induction ey a b rule: windows.induct)
  case (1 ey a b)
  show ?case
  proof (cases "b + 1 > ey")
    case True
    with "1.prems" show ?thesis by (simp add: windows.simps [of ey a b])
  next
    case False
    with "1.prems" have "(x, y) = (a, b) \<or> (x, y) \<in> set (windows ey (b + 1) (min (b + 20) ey))"
      by (simp add: windows.simps [of ey a b])
    then show ?thesis
    proof
      assume "(x, y) = (a, b)" with "1.prems" show ?thesis by simp
    next
      assume "(x, y) \<in> set (windows ey (b + 1) (min (b + 20) ey))"
      with "1.IH" False show ?thesis by simp
    qed
  qed
qed

subsection \<open>Merging by series id\<close>

lemma map_of_extend_compiled:
  "map_of (extend_compiled cr i xs) = (map_of cr)(i \<mapsto> lookup_compiled cr i @ xs)"
  by (induction cr i xs rule: extend_compiled.induct)
     (auto simp: lookup_compiled_def fun_eq_iff)

lemma lookup_extend_compiled:
  "lookup_compiled (extend_compiled cr i xs) k =
     lookup_compiled cr k @ (if k = i then xs else [])"
  by (simp add: lookup_compiled_def map_of_extend_compiled)

lemma keys_extend_compiled:
  "map fst (extend_compiled cr i xs) =
     (if i \<in> set (map fst cr) then map fst cr else map fst cr @ [i])"
  by (induction cr i xs rule: extend_compiled.induct) auto

lemma distinct_extend_compiled:
  "distinct (map fst cr) \<Longrightarrow> distinct (map fst (extend_compiled cr i xs))"
  by (simp add: keys_extend_compiled)

lemma compile_results_distinct:
  "distinct (map fst cr) \<Longrightarrow> distinct (map fst (compile_results cr rs))"
  by (induction rs arbitrary: cr) (simp_all add: distinct_extend_compiled)

lemma keys_set_extend_compiled:
  "set (map fst (extend_compiled cr i xs)) = insert i (set (map fst cr))"
  unfolding keys_extend_compiled by auto

lemma compile_results_keys:
  "set (map fst (compile_results cr rs)) = set (map fst cr) \<union> seriesID ` set rs"
proof (induction rs arbitrary: cr)
  case Nil
  show ?case by simp
next
  case (Cons r rs)
  have "set (map fst (compile_results cr (r # rs))) =
      set (map fst (extend_compiled cr (seriesID r) (data r))) \<union> seriesID ` set rs"
    using Cons.IH [of "extend_compiled cr (seriesID r) (data r)"] by simp
  also have "\<dots> = insert (seriesID r) (set (map fst cr)) \<union> seriesID ` set rs"
    unfolding keys_set_extend_compiled ..
  finally show ?case by auto
qed

lemma compile_results_lookup:
  "lookup_compiled (compile_results cr rs) k =
     lookup_compiled cr k @ concat (map data (filter (\<lambda>r. seriesID r = k) rs))"
  by (induction rs arbitrary: cr) (auto simp: lookup_extend_compiled)

lemma lookup_compiled_mem:
  "distinct (map fst cr) \<Longrightarrow> (i, j) \<in> set cr \<Longrightarrow> lookup_compiled cr i = j"
  by (simp add: lookup_compiled_def)

lemma resolve_startyear_zero:
  "resolve_startyear sy ey' key = 0 \<Longrightarrow> ey' - resolve_startyear sy ey' key < 20"
  by (cases sy) (auto simp: resolve_startyear_def split: if_splits)


lemma form_body_fields:
  "seriesid (form_body S x y key) = join_series S"
  "startyear (form_body S x y key) = x"
  "endyear (form_body S x y key) = y"
  "registrationkey (form_body S x y key) = key"
  by (simp_all add: form_body_def)

text \<open>
  Claim C1. A call with a key whose resolved years span 20 years or more sends, after
  the calls already made, a non-empty list of form bodies \<open>reqs\<close> for the requested
  ids and the key: the first for \<open>[start, start + 18]\<close>, each next one starting the year
  after the one before ended and ending at \<open>min (previous end + 20) end\<close>, none starting
  after the end year. If a physical call raises, the list stops at that call and the
  exception is the result. If the call returns, the last window ends at the end year
  (so the next start would exceed it), every year from start to end lies in exactly one
  window and no other year in any, every physical call returned a series list, and the
  result has one entry for each series id that occurs in those lists, whose data is the
  concatenation of the data of the entries with that id, in the order of the calls.
\<close>

theorem pagination_windows_and_merge:
  assumes key: "resolve_key key0 w = Some k"
    and ey': "ey' = resolve_endyear (this_year w) sy ey (Some k)"
    and sy': "sy' = resolve_startyear sy ey' (Some k)"
    and span: "ey' - sy' \<ge> 20"
    and run: "get_json_series net series sy ey key0 w = (res, w')"
  shows "\<exists>reqs. sent w' = sent w @ reqs \<and> reqs \<noteq> [] \<and>
      (\<forall>r \<in> set reqs. seriesid r = join_series (as_sequence series) \<and>
          registrationkey r = Some k \<and> startyear r \<le> ey') \<and>
      startyear (hd reqs) = sy' \<and> endyear (hd reqs) = sy' + 18 \<and>
      (\<forall>i. Suc i < length reqs \<longrightarrow>
          startyear (reqs ! Suc i) = endyear (reqs ! i) + 1 \<and>
          endyear (reqs ! Suc i) = min (endyear (reqs ! i) + 20) ey') \<and>
      (case res of
         Inl e \<Rightarrow> answer net (last reqs) = Inl e
       | Inr rs \<Rightarrow>
           endyear (last reqs) = ey' \<and>
           (\<forall>y. length (filter (\<lambda>r. startyear r \<le> y \<and> y \<le> endyear r) reqs) =
                (if sy' \<le> y \<and> y \<le> ey' then 1 else 0)) \<and>
           (\<exists>rss. map (answer net) reqs = map Inr rss \<and>
              distinct (map seriesID rs) \<and>
              seriesID ` set rs = seriesID ` set (concat rss) \<and>
              (\<forall>r \<in> set rs.
                 data r = concat (map data (filter (\<lambda>x. seriesID x = seriesID r) (concat rss))))))"
proof -
  let ?S = "as_sequence series"
  let ?ws = "windows ey' sy' (sy' + 18)"
  let ?f = "\<lambda>(x, y). form_body ?S x y (Some k)"
  have sf: "startyear (?f p) = fst p" "endyear (?f p) = snd p"
    "seriesid (?f p) = join_series ?S" "registrationkey (?f p) = Some k" for p
    by (simp_all add: form_body_fields split: prod.splits)
  have nz: "sy' \<noteq> 0"
    using span resolve_startyear_zero [of sy ey' "Some k"] sy' by auto
  obtain pres pw where p: "paginate net ?S (Some k) ey' sy' (sy' + 18) [] w = (pres, pw)"
    by fastforce
  have "get_json_series net series sy ey key0 w =
      (case pres of Inl e \<Rightarrow> Inl e
         | Inr cr \<Rightarrow> Inr (map (\<lambda>(i, j). \<lparr>seriesID = i, data = j\<rparr>) cr), pw)"
    using key ey' sy' span nz p
    by (simp add: get_json_series_def Let_def split: sum.splits)
  with run have w': "w' = pw"
    and res: "res = (case pres of Inl e \<Rightarrow> Inl e
         | Inr cr \<Rightarrow> Inr (map (\<lambda>(i, j). \<lparr>seriesID = i, data = j\<rparr>) cr))"
    by simp_all
  from paginate_sent [OF p] obtain n where n: "0 < n" "n \<le> length ?ws"
    and snt: "sent pw = sent w @ map ?f (take n ?ws)"
    and fin: "case pres of Inr cr' \<Rightarrow> n = length ?ws
                | Inl e \<Rightarrow> answer net (last (sent pw)) = Inl e"
    by blast
  define reqs where "reqs = map ?f (take n ?ws)"
  have len: "length reqs = n" using n by (simp add: reqs_def)
  have ne: "reqs \<noteq> []" using n len by auto
  have c1: "sent w' = sent w @ reqs" using snt w' by (simp add: reqs_def)
  have c3: "\<forall>r \<in> set reqs. seriesid r = join_series ?S \<and>
          registrationkey r = Some k \<and> startyear r \<le> ey'"
  proof
    fix r assume "r \<in> set reqs"
    then obtain q where q: "q \<in> set (take n ?ws)" "r = ?f q"
      by (auto simp: reqs_def)
    then have "q \<in> set ?ws" by (meson in_set_takeD)
    then have "fst q \<le> ey'"
      using windows_start_le [of sy' ey' "fst q" "snd q" "sy' + 18"] span by simp
    with q show "seriesid r = join_series ?S \<and> registrationkey r = Some k \<and> startyear r \<le> ey'"
      by (simp add: sf)
  qed
  have "hd (take n ?ws) = (sy', sy' + 18)"
    using n windows_hd [of ey' sy' "sy' + 18"] by (cases n) simp_all
  moreover have "take n ?ws \<noteq> []" using n windows_nonempty [of ey' sy' "sy' + 18"] by simp
  ultimately have c4: "startyear (hd reqs) = sy' \<and> endyear (hd reqs) = sy' + 18"
    by (simp add: reqs_def hd_map form_body_fields)
  have cons: "consecutive ey' (take n ?ws)"
    by (rule consecutive_take) (rule windows_consecutive)
  have c5: "\<forall>i. Suc i < length reqs \<longrightarrow>
          startyear (reqs ! Suc i) = endyear (reqs ! i) + 1 \<and>
          endyear (reqs ! Suc i) = min (endyear (reqs ! i) + 20) ey'"
  proof (intro allI impI)
    fix i assume i: "Suc i < length reqs"
    then have "Suc i < length (take n ?ws)" by (simp add: reqs_def)
    from consecutive_nth [OF cons this] i
    show "startyear (reqs ! Suc i) = endyear (reqs ! i) + 1 \<and>
          endyear (reqs ! Suc i) = min (endyear (reqs ! i) + 20) ey'"
      by (simp add: reqs_def sf)
  qed
  have c6: "case res of
         Inl e \<Rightarrow> answer net (last reqs) = Inl e
       | Inr rs \<Rightarrow>
           endyear (last reqs) = ey' \<and>
           (\<forall>y. length (filter (\<lambda>r. startyear r \<le> y \<and> y \<le> endyear r) reqs) =
                (if sy' \<le> y \<and> y \<le> ey' then 1 else 0)) \<and>
           (\<exists>rss. map (answer net) reqs = map Inr rss \<and>
              distinct (map seriesID rs) \<and>
              seriesID ` set rs = seriesID ` set (concat rss) \<and>
              (\<forall>r \<in> set rs.
                 data r = concat (map data (filter (\<lambda>x. seriesID x = seriesID r) (concat rss)))))"
  proof (cases pres)
    case (Inl e)
    with fin have "answer net (last (sent pw)) = Inl e" by simp
    moreover have "last (sent pw) = last reqs" using snt ne by (simp add: reqs_def)
    ultimately show ?thesis using Inl res by simp
  next
    case (Inr cr)
    with fin have "n = length ?ws" by simp
    then have all: "reqs = map ?f ?ws" by (simp add: reqs_def)
    have rs: "res = Inr (map (\<lambda>(i, j). \<lparr>seriesID = i, data = j\<rparr>) cr)"
      using res Inr by simp
    have "last reqs = ?f (last ?ws)"
      unfolding all using windows_nonempty [of ey' sy' "sy' + 18"] by (simp add: last_map)
    then have l: "endyear (last reqs) = ey'"
      using windows_last [of "sy' + 18" ey' sy'] span by (simp add: sf)
    have cov: "length (filter (\<lambda>r. startyear r \<le> y \<and> y \<le> endyear r) reqs) =
                (if sy' \<le> y \<and> y \<le> ey' then 1 else 0)" for y
    proof -
      have "filter (\<lambda>r. startyear r \<le> y \<and> y \<le> endyear r) reqs =
          map ?f (filter (\<lambda>(x, z). x \<le> y \<and> y \<le> z) ?ws)"
        unfolding all filter_map
        by (rule arg_cong [where f = "map ?f"], rule filter_cong)
           (auto simp: form_body_fields)
      then show ?thesis
        using windows_cover [of sy' "sy' + 18" ey' y] span by simp
    qed
    from paginate_result [of net ?S "Some k" ey' sy' "sy' + 18" "[]" w cr pw] p Inr
    obtain rss where rss:
      "map (\<lambda>(x, y). answer net (form_body ?S x y (Some k))) ?ws = map Inr rss"
      "cr = compile_results [] (concat rss)"
      by auto
    have m: "map (answer net) reqs = map Inr rss"
      using rss(1) unfolding all by (simp add: case_prod_unfold comp_def)
    let ?rs = "map (\<lambda>(i, j). \<lparr>seriesID = i, data = j\<rparr>) cr"
    have ids: "map seriesID ?rs = map fst cr" by (simp add: case_prod_unfold comp_def)
    have dcr: "distinct (map fst cr)"
      unfolding rss(2) by (rule compile_results_distinct) simp
    then have d: "distinct (map seriesID ?rs)" unfolding ids .
    have "set (map fst cr) = seriesID ` set (concat rss)"
      unfolding rss(2) compile_results_keys by simp
    then have "set (map seriesID ?rs) = seriesID ` set (concat rss)"
      unfolding ids .
    then have k: "seriesID ` set ?rs = seriesID ` set (concat rss)"
      by (simp only: set_map)
    have dat: "\<forall>r \<in> set ?rs.
        data r = concat (map data (filter (\<lambda>x. seriesID x = seriesID r) (concat rss)))"
    proof
      fix r assume "r \<in> set ?rs"
      then obtain i j where ij: "(i, j) \<in> set cr" "r = \<lparr>seriesID = i, data = j\<rparr>"
        by auto
      then have "lookup_compiled cr i = j" using dcr by (simp add: lookup_compiled_mem)
      moreover have "lookup_compiled cr i =
          concat (map data (filter (\<lambda>x. seriesID x = i) (concat rss)))"
        unfolding rss(2) compile_results_lookup by (simp add: lookup_compiled_def)
      ultimately show "data r = concat (map data (filter (\<lambda>x. seriesID x = seriesID r) (concat rss)))"
        using ij by simp
    qed
    show ?thesis unfolding rs using l cov m d k dat by auto
  qed
  show ?thesis using c1 ne c3 c4 c5 c6 by blast
qed

lemmas demo_defs = demo_world_def demo_net_def demo_obs_def failing_net_def demo_sent_def
  demo_merged_def

lemmas fetch_defs = get_json_series_def resolve_key_def resolve_endyear_def
  resolve_startyear_def get_json_subset_def form_body_def check_envelope_def Let_def

theorem pagination_windows_and_merge_witness:
  "resolve_key (Some ''k'') demo_world = Some ''k'' \<and>
   (2026::int) = resolve_endyear (this_year demo_world) (Some 1980) None (Some ''k'') \<and>
   (1980::int) = resolve_startyear (Some 1980) 2026 (Some ''k'') \<and>
   (2026::int) - 1980 \<ge> 20 \<and>
   get_json_series demo_net (Str ''S'') (Some 1980) None (Some ''k'') demo_world =
     (Inr demo_merged,
      demo_world\<lparr>sent := demo_sent, logged := [''notice'', ''notice'', ''notice'']\<rparr>) \<and>
   (\<exists>reqs. sent (demo_world\<lparr>sent := demo_sent, logged := [''notice'', ''notice'', ''notice'']\<rparr>)
          = sent demo_world @ reqs \<and> reqs \<noteq> [] \<and>
      (\<forall>r \<in> set reqs. seriesid r = join_series (as_sequence (Str ''S'')) \<and>
          registrationkey r = Some ''k'' \<and> startyear r \<le> 2026) \<and>
      startyear (hd reqs) = 1980 \<and> endyear (hd reqs) = 1980 + 18 \<and>
      (\<forall>i. Suc i < length reqs \<longrightarrow>
          startyear (reqs ! Suc i) = endyear (reqs ! i) + 1 \<and>
          endyear (reqs ! Suc i) = min (endyear (reqs ! i) + 20) 2026) \<and>
      (case Inr demo_merged of
         Inl e \<Rightarrow> answer demo_net (last reqs) = Inl e
       | Inr rs \<Rightarrow>
           endyear (last reqs) = 2026 \<and>
           (\<forall>y. length (filter (\<lambda>r. startyear r \<le> y \<and> y \<le> endyear r) reqs) =
                (if 1980 \<le> y \<and> y \<le> 2026 then 1 else 0)) \<and>
           (\<exists>rss. map (answer demo_net) reqs = map Inr rss \<and>
              distinct (map seriesID rs) \<and>
              seriesID ` set rs = seriesID ` set (concat rss) \<and>
              (\<forall>r \<in> set rs.
                 data r = concat (map data (filter (\<lambda>x. seriesID x = seriesID r) (concat rss)))))))"
proof -
  have h1: "resolve_key (Some ''k'') demo_world = Some ''k''"
    by (simp add: resolve_key_def)
  have h2: "(2026::int) = resolve_endyear (this_year demo_world) (Some 1980) None (Some ''k'')"
    by (simp add: resolve_endyear_def demo_world_def)
  have h3: "(1980::int) = resolve_startyear (Some 1980) 2026 (Some ''k'')"
    by (simp add: resolve_startyear_def)
  have h4: "(2026::int) - 1980 \<ge> 20" by simp
  have h5: "get_json_series demo_net (Str ''S'') (Some 1980) None (Some ''k'') demo_world =
     (Inr demo_merged,
      demo_world\<lparr>sent := demo_sent, logged := [''notice'', ''notice'', ''notice'']\<rparr>)"
    by (simp add: fetch_defs demo_defs paginate.simps)
  show ?thesis
    by (intro conjI h1 h2 h3 h4 h5 pagination_windows_and_merge [OF h1 h2 h3 h4 h5])
qed

subsection \<open>Errors before and after a physical call\<close>

text \<open>
  Claim C3. With no key, neither passed nor held, and resolved years that span 10 years
  or more, \<^verbatim>\<open>get_json_series\<close> raises the \<^verbatim>\<open>ValueError\<close> of line 84 and leaves
  the world as it was: no physical call is sent and nothing is logged.
\<close>

theorem unkeyed_long_span_raises_before_any_call:
  assumes "resolve_key key0 w = None"
    and "ey' = resolve_endyear (this_year w) sy ey None"
    and "sy' = resolve_startyear sy ey' None"
    and "ey' - sy' \<ge> 10"
  shows "get_json_series net series sy ey key0 w = (Inl (ValueError MustUseKey), w)"
  using assms by (simp add: get_json_series_def Let_def)

theorem unkeyed_long_span_raises_before_any_call_witness:
  "resolve_key None demo_world = None \<and>
   (2020::int) = resolve_endyear (this_year demo_world) (Some 2005) (Some 2020) None \<and>
   (2005::int) = resolve_startyear (Some 2005) 2020 None \<and>
   (2020::int) - 2005 \<ge> 10 \<and>
   get_json_series demo_net (Seq [''S'', ''T'']) (Some 2005) (Some 2020) None demo_world =
     (Inl (ValueError MustUseKey), demo_world)"
proof -
  have h1: "resolve_key None demo_world = None"
    by (simp add: resolve_key_def demo_world_def)
  have h2: "(2020::int) = resolve_endyear (this_year demo_world) (Some 2005) (Some 2020) None"
    by (simp add: resolve_endyear_def demo_world_def)
  have h3: "(2005::int) = resolve_startyear (Some 2005) 2020 None"
    by (simp add: resolve_startyear_def)
  have h4: "(2020::int) - 2005 \<ge> 10" by simp
  show ?thesis
    by (intro conjI h1 h2 h3 h4 unkeyed_long_span_raises_before_any_call [OF h1 h2 h3 h4])
qed

text \<open>
  Claim C6. For the answer to a physical call that carries a message list and a status,
  every message is logged, whatever the status; a \<^verbatim>\<open>RuntimeError\<close> is raised exactly
  when the status is not \<^verbatim>\<open>REQUEST_SUCCEEDED\<close>, and it embeds the status; on success
  the list at \<^verbatim>\<open>Results.series\<close> is returned (a \<^verbatim>\<open>KeyError\<close> if there is none).
\<close>

theorem envelope_messages_then_status:
  assumes "net (form_body series a b key) = Some resp"
    and "message resp = Some ms"
    and "status resp = Some s"
    and "get_json_subset net series a b key w = (res, w')"
  shows "logged w' = logged w @ ms \<and>
         ((\<exists>t. res = Inl (RuntimeError t)) \<longleftrightarrow> s \<noteq> ''REQUEST_SUCCEEDED'') \<and>
         (s \<noteq> ''REQUEST_SUCCEEDED'' \<longrightarrow> res = Inl (RuntimeError s)) \<and>
         (s = ''REQUEST_SUCCEEDED'' \<longrightarrow>
            res = (case Results resp of
                     None \<Rightarrow> Inl (KeyError ''Results'')
                   | Some None \<Rightarrow> Inl (KeyError ''series'')
                   | Some (Some rs) \<Rightarrow> Inr rs))"
proof -
  let ?req = "form_body series a b key"
  from assms(4) have res: "res = answer net ?req"
    and w': "w' = w\<lparr>sent := sent w @ [?req], logged := logged w @ replies net ?req\<rparr>"
    by (simp_all add: get_json_subset_eq)
  have "replies net ?req = ms"
    using assms(1-3) by (simp add: replies_def check_envelope_def split: option.splits)
  then have l: "logged w' = logged w @ ms" using w' by simp
  have a: "answer net ?req =
      (if s \<noteq> ''REQUEST_SUCCEEDED'' then Inl (RuntimeError s)
       else case Results resp of
              None \<Rightarrow> Inl (KeyError ''Results'')
            | Some None \<Rightarrow> Inl (KeyError ''series'')
            | Some (Some rs) \<Rightarrow> Inr rs)"
    using assms(1-3) by (simp add: answer_def check_envelope_def split: option.splits)
  show ?thesis
    unfolding res a using l by (auto split: option.splits)
qed

theorem envelope_messages_then_status_witness:
  "failing_net (form_body (Seq [''S'']) 2020 2024 None) =
     Some \<lparr>message = Some [''daily threshold reached''], status = Some ''REQUEST_NOT_PROCESSED'',
           Results = Some None\<rparr> \<and>
   get_json_subset failing_net (Seq [''S'']) 2020 2024 None demo_world =
     (Inl (RuntimeError ''REQUEST_NOT_PROCESSED''),
      demo_world\<lparr>sent := [form_body (Seq [''S'']) 2020 2024 None],
                  logged := [''daily threshold reached'']\<rparr>) \<and>
   logged (demo_world\<lparr>sent := [form_body (Seq [''S'']) 2020 2024 None],
                  logged := [''daily threshold reached'']\<rparr>)
     = logged demo_world @ [''daily threshold reached''] \<and>
   ((\<exists>t. (Inl (RuntimeError ''REQUEST_NOT_PROCESSED'') :: error + raw_series list) = Inl (RuntimeError t))
      \<longleftrightarrow> ''REQUEST_NOT_PROCESSED'' \<noteq> ''REQUEST_SUCCEEDED'')"
proof -
  let ?resp = "\<lparr>message = Some [''daily threshold reached''], status = Some ''REQUEST_NOT_PROCESSED'',
           Results = Some None\<rparr>"
  have h1: "failing_net (form_body (Seq [''S'']) 2020 2024 None) = Some ?resp"
    by (simp add: failing_net_def)
  have h2: "message ?resp = Some [''daily threshold reached'']" by simp
  have h3: "status ?resp = Some ''REQUEST_NOT_PROCESSED''" by simp
  have h4: "get_json_subset failing_net (Seq [''S'']) 2020 2024 None demo_world =
     (Inl (RuntimeError ''REQUEST_NOT_PROCESSED''),
      demo_world\<lparr>sent := [form_body (Seq [''S'']) 2020 2024 None],
                  logged := [''daily threshold reached'']\<rparr>)"
    by (simp add: get_json_subset_def check_envelope_def failing_net_def demo_world_def Let_def)
  show ?thesis
    using envelope_messages_then_status [OF h1 h2 h3 h4] h1 h4 by blast
qed

subsection \<open>What every call sends\<close>

lemma get_json_series_unfold:
  assumes "key = resolve_key key0 w"
    and "ey' = resolve_endyear (this_year w) sy ey key"
    and "sy' = resolve_startyear sy ey' key"
  shows "get_json_series net series sy ey key0 w =
     (if key = None \<and> ey' - sy' \<ge> 10 then (Inl (ValueError MustUseKey), w)
      else if sy' \<noteq> 0 \<and> ey' - sy' \<ge> 20 then
        (case paginate net (as_sequence series) key ey' sy' (sy' + 18) [] w of
           (Inl e, w') \<Rightarrow> (Inl e, w')
         | (Inr cr, w') \<Rightarrow> (Inr (map (\<lambda>(i, j). \<lparr>seriesID = i, data = j\<rparr>) cr), w'))
      else get_json_subset net (as_sequence series) sy' ey' key w)"
  unfolding assms by (simp add: get_json_series_def Let_def)

lemma get_json_series_sent:
  assumes run: "get_json_series net series sy ey key0 w = (res, w')"
  shows "\<exists>reqs. sent w' = sent w @ reqs \<and>
      (\<forall>r \<in> set reqs. seriesid r = join_series (as_sequence series) \<and>
         registrationkey r = resolve_key key0 w \<and>
         endyear r - startyear r \<le> (if resolve_key key0 w = None then 9 else 19))"
proof -
  define key where "key = resolve_key key0 w"
  define ey' where "ey' = resolve_endyear (this_year w) sy ey key"
  define sy' where "sy' = resolve_startyear sy ey' key"
  note U = get_json_series_unfold [OF key_def ey'_def sy'_def, of net series]
  let ?S = "as_sequence series"
  let ?P = "\<lambda>r. seriesid r = join_series ?S \<and> registrationkey r = key \<and>
         endyear r - startyear r \<le> (if key = None then 9 else 19)"
  have zero: "sy' = 0 \<Longrightarrow> ey' - sy' < 20"
    using resolve_startyear_zero [of sy ey' key] by (simp add: sy'_def)
  consider (raise) "key = None" "ey' - sy' \<ge> 10"
    | (pages) "\<not> (key = None \<and> ey' - sy' \<ge> 10)" "sy' \<noteq> 0" "ey' - sy' \<ge> 20"
    | (single) "\<not> (key = None \<and> ey' - sy' \<ge> 10)" "\<not> (sy' \<noteq> 0 \<and> ey' - sy' \<ge> 20)"
    by blast
  then have "\<exists>reqs. sent w' = sent w @ reqs \<and> (\<forall>r \<in> set reqs. ?P r)"
  proof cases
    case raise
    then have "get_json_series net series sy ey key0 w = (Inl (ValueError MustUseKey), w)"
      by (simp add: U)
    with run have "w' = w" by simp
    then show ?thesis by simp
  next
    case pages
    then have k: "key \<noteq> None" by auto
    let ?ws = "windows ey' sy' (sy' + 18)"
    let ?f = "\<lambda>(x, y). form_body ?S x y key"
    obtain pres pw where p: "paginate net ?S key ey' sy' (sy' + 18) [] w = (pres, pw)"
      by fastforce
    have "get_json_series net series sy ey key0 w =
        (case pres of Inl e \<Rightarrow> Inl e
           | Inr cr \<Rightarrow> Inr (map (\<lambda>(i, j). \<lparr>seriesID = i, data = j\<rparr>) cr), pw)"
      using pages(2,3) p k by (auto simp add: U split: sum.splits)
    with run have w': "w' = pw" by simp
    from paginate_sent [OF p] obtain n where
      snt: "sent pw = sent w @ map ?f (take n ?ws)" by blast
    have "\<forall>r \<in> set (map ?f (take n ?ws)). ?P r"
    proof
      fix r assume "r \<in> set (map ?f (take n ?ws))"
      then obtain x y where q: "(x, y) \<in> set (take n ?ws)" "r = form_body ?S x y key"
        by auto
      then have "(x, y) \<in> set ?ws" by (meson in_set_takeD)
      then have "y - x \<le> 19"
        using windows_span [of "sy' + 18" sy' x y ey'] by simp
      with q k show "?P r" by (auto simp add: form_body_fields)
    qed
    with snt w' show ?thesis by blast
  next
    case single
    then have "get_json_series net series sy ey key0 w = get_json_subset net ?S sy' ey' key w"
      by (simp only: U if_False)
    with run have "sent w' = sent w @ [form_body ?S sy' ey' key]"
      by (auto simp add: get_json_subset_eq)
    moreover have "?P (form_body ?S sy' ey' key)"
      using single zero by (auto simp: form_body_fields)
    ultimately show ?thesis by simp
  qed
  then show ?thesis by (simp add: key_def)
qed

text \<open>
  Claim C8. Every form body sent by a call of \<^verbatim>\<open>get_json_series\<close> carries the
  resolved key and a year range within the provider's limit: the end year exceeds the
  start year by at most 9 without a key and by at most 19 with one. This holds for the
  single call and for every window of the pagination loop.
\<close>

theorem physical_call_span_bounded:
  assumes "get_json_series net series sy ey key0 w = (res, w')"
  shows "\<exists>reqs. sent w' = sent w @ reqs \<and>
      (\<forall>r \<in> set reqs. registrationkey r = resolve_key key0 w \<and>
         endyear r - startyear r \<le> (if resolve_key key0 w = None then 9 else 19))"
  using get_json_series_sent [OF assms] by blast

theorem physical_call_span_bounded_witness:
  "get_json_series demo_net (Seq [''S'', ''T'']) None None None demo_world =
     (Inr [\<lparr>seriesID = ''S,T'', data = [demo_obs ''2026'' ''A01'' ''1'']\<rparr>],
      demo_world\<lparr>sent := [form_body (Seq [''S'', ''T'']) 2017 2026 None],
                  logged := [''notice'']\<rparr>) \<and>
   (\<exists>reqs. sent (demo_world\<lparr>sent := [form_body (Seq [''S'', ''T'']) 2017 2026 None],
                  logged := [''notice'']\<rparr>) = sent demo_world @ reqs \<and>
      (\<forall>r \<in> set reqs. registrationkey r = resolve_key None demo_world \<and>
         endyear r - startyear r \<le> (if resolve_key None demo_world = None then 9 else 19)))"
proof -
  have h: "get_json_series demo_net (Seq [''S'', ''T'']) None None None demo_world =
     (Inr [\<lparr>seriesID = ''S,T'', data = [demo_obs ''2026'' ''A01'' ''1'']\<rparr>],
      demo_world\<lparr>sent := [form_body (Seq [''S'', ''T'']) 2017 2026 None],
                  logged := [''notice'']\<rparr>)"
    by (simp add: fetch_defs demo_defs)
  show ?thesis
    by (intro conjI h physical_call_span_bounded [OF h])
qed

text \<open>
  Claim C9. A call with the bare string \<open>s\<close> does exactly what the call with the
  one-element sequence \<open>[s]\<close> does, and every form body it sends names \<open>s\<close> itself
  as \<^verbatim>\<open>seriesid\<close>. (Joining the bare string would put commas between its
  characters, as the last line of the witness shows.)
\<close>

theorem bare_string_wrapped_before_request:
  assumes "get_json_series net (Str s) sy ey key0 w = (res, w')"
  shows "get_json_series net (Seq [s]) sy ey key0 w = (res, w') \<and>
     (\<exists>reqs. sent w' = sent w @ reqs \<and> (\<forall>r \<in> set reqs. seriesid r = s))"
proof -
  have "get_json_series net (Seq [s]) sy ey key0 w = get_json_series net (Str s) sy ey key0 w"
    by (simp add: get_json_series_def)
  moreover have "join_series (as_sequence (Str s)) = s" by simp
  ultimately show ?thesis
    using get_json_series_sent [OF assms] assms by auto
qed

theorem bare_string_wrapped_before_request_witness:
  "get_json_series demo_net (Str ''LNS14'') (Some 2020) (Some 2024) None demo_world =
     (Inr [\<lparr>seriesID = ''LNS14'', data = [demo_obs ''2026'' ''A01'' ''1'']\<rparr>],
      demo_world\<lparr>sent := [\<lparr>seriesid = ''LNS14'', startyear = 2020, endyear = 2024,
                            registrationkey = None\<rparr>],
                  logged := [''notice'']\<rparr>) \<and>
   get_json_series demo_net (Seq [''LNS14'']) (Some 2020) (Some 2024) None demo_world =
     (Inr [\<lparr>seriesID = ''LNS14'', data = [demo_obs ''2026'' ''A01'' ''1'']\<rparr>],
      demo_world\<lparr>sent := [\<lparr>seriesid = ''LNS14'', startyear = 2020, endyear = 2024,
                            registrationkey = None\<rparr>],
                  logged := [''notice'']\<rparr>) \<and>
   join_series (Str ''LNS14'') = ''L,N,S,1,4''"
proof -
  have h: "get_json_series demo_net (Str ''LNS14'') (Some 2020) (Some 2024) None demo_world =
     (Inr [\<lparr>seriesID = ''LNS14'', data = [demo_obs ''2026'' ''A01'' ''1'']\<rparr>],
      demo_world\<lparr>sent := [\<lparr>seriesid = ''LNS14'', startyear = 2020, endyear = 2024,
                            registrationkey = None\<rparr>],
                  logged := [''notice'']\<rparr>)"
    by (simp add: fetch_defs demo_defs)
  have j: "join_series (Str ''LNS14'') = ''L,N,S,1,4''" by simp
  show ?thesis
    using bare_string_wrapped_before_request [OF h] h j by blast
qed

text \<open>
  Claim C2. Line 80 tests \<^verbatim>\<open>not startyear\<close>, which is also true of the start year
  0, while lines 69 and 75 test \<^verbatim>\<open>startyear is None\<close>. A caller who passes the
  start year 0 and the end year 5 without a key gets the start year replaced by
  \<open>5 - 9 = -4\<close>, and the physical call asks for the years -4 to 5.
\<close>

theorem startyear_zero_is_overwritten:
  "resolve_endyear 2026 (Some 0) (Some 5) None = 5 \<and>
   resolve_startyear (Some 0) 5 None = - 4 \<and>
   get_json_series demo_net (Seq [''S'']) (Some 0) (Some 5) None demo_world =
     (Inr [\<lparr>seriesID = ''S'', data = [demo_obs ''2026'' ''A01'' ''1'']\<rparr>],
      demo_world\<lparr>sent := [\<lparr>seriesid = ''S'', startyear = - 4, endyear = 5,
                            registrationkey = None\<rparr>],
                  logged := [''notice'']\<rparr>)"
  by (simp add: fetch_defs demo_defs)

text \<open>
  For every other start year the resolution is the one the claim describes: the end
  year first, then the start year only when it is \<^verbatim>\<open>None\<close>.
\<close>

lemma year_resolution_unless_startyear_zero:
  assumes "sy \<noteq> Some 0"
  shows "resolve_endyear thisyear sy ey key =
           (if ey = None \<or> (\<exists>e. ey = Some e \<and> e > thisyear)
            then (if sy = None \<or> key \<noteq> None then thisyear else min (the sy + 9) thisyear)
            else the ey)"
    and "resolve_startyear sy ey' key =
           (case sy of None \<Rightarrow> ey' - (if key = None then 9 else 19) | Some s \<Rightarrow> s)"
  using assms
  by (auto simp: resolve_endyear_def resolve_startyear_def split: option.splits)

subsection \<open>The series parser\<close>

lemmas engine_defs = demo_engine_def demo_date_def demo_float_def nat_of_digits_def
  demo_months_def demo_monthly_def demo_mixed_def demo_obs_def

lemmas parse_defs = parse_series_def assign_date_def index_by_period_def Let_def

lemma assign_date_error: "assign_date eng strs df = Inl e \<Longrightarrow> e = EngineError"
  by (auto simp: assign_date_def split: option.splits if_splits)

text \<open>
  Claim C10. \<^verbatim>\<open>parse_series\<close> raises the unknown-period \<^verbatim>\<open>ValueError\<close> exactly
  when the series has data and the period code of its first observation starts with a
  character other than \<^verbatim>\<open>A\<close>, \<^verbatim>\<open>Q\<close> and \<^verbatim>\<open>M\<close>; the error then names that
  period code. No later observation and no answer of the engine takes part in it.
\<close>

theorem unknown_period_decided_by_first_character:
  "parse_series eng series = Inl (ValueError (UnknownPeriod p)) \<longleftrightarrow>
     data series \<noteq> [] \<and>
     (\<exists>c cs. obs_period (hd (data series)) = c # cs \<and> p = c # cs \<and>
        c \<noteq> CHR ''A'' \<and> c \<noteq> CHR ''Q'' \<and> c \<noteq> CHR ''M'')"
proof (cases "data series = []")
  case True
  then show ?thesis by (simp add: parse_series_def)
next
  case False
  show ?thesis
  proof (cases "obs_period (hd (data series))")
    case Nil
    with False show ?thesis by (simp add: parse_series_def)
  next
    case (Cons c cs)
    with False show ?thesis
      by (auto simp add: parse_series_def Let_def split: sum.splits dest: assign_date_error)
  qed
qed

theorem unknown_period_decided_by_first_character_witness:
  "obs_period (hd (data demo_mixed)) = ''M02'' \<and>
   map obs_period (data demo_mixed) = [''M02'', ''Q01'', ''X''] \<and>
   parse_series demo_engine demo_mixed = Inl EngineError \<and>
   parse_series demo_engine (demo_mixed\<lparr>data := rev (data demo_mixed)\<rparr>)
     = Inl (ValueError (UnknownPeriod ''X''))"
proof -
  have a: "obs_period (hd (data demo_mixed)) = ''M02''"
    and b: "map obs_period (data demo_mixed) = [''M02'', ''Q01'', ''X'']"
    and c: "parse_series demo_engine demo_mixed = Inl EngineError"
    by (simp_all add: parse_defs engine_defs)
  have "data (demo_mixed\<lparr>data := rev (data demo_mixed)\<rparr>) \<noteq> [] \<and>
     (\<exists>c cs. obs_period (hd (data (demo_mixed\<lparr>data := rev (data demo_mixed)\<rparr>))) = c # cs \<and>
        ''X'' = c # cs \<and> c \<noteq> CHR ''A'' \<and> c \<noteq> CHR ''Q'' \<and> c \<noteq> CHR ''M'')"
    by (simp add: engine_defs)
  then have d: "parse_series demo_engine (demo_mixed\<lparr>data := rev (data demo_mixed)\<rparr>)
     = Inl (ValueError (UnknownPeriod ''X''))"
    using unknown_period_decided_by_first_character
      [of demo_engine "demo_mixed\<lparr>data := rev (data demo_mixed)\<rparr>" "''X''"]
    by blast
  show ?thesis by (intro conjI a b c d)
qed

text \<open>
  What the monthly branch (lines 123-132) does with a series that has data and whose
  first period code starts with \<^verbatim>\<open>M\<close>: the date strings of all rows, those with
  the code \<^verbatim>\<open>M13\<close> among them, go to \<^verbatim>\<open>pd.to_datetime\<close> first (line 126); only
  when it accepts the whole column are the \<^verbatim>\<open>M13\<close> rows masked out (line 129) and
  the remaining rows indexed.
\<close>

lemma monthly_dates_before_mask:
  assumes "data series \<noteq> []" and "obs_period (hd (data series)) = CHR ''M'' # cs"
  shows "parse_series eng series =
     (case to_datetime eng
             (map (\<lambda>ob. obs_year ob @ str_replace ''M'' ''-'' (obs_period ob)) (data series)) of
        None \<Rightarrow> Inl EngineError
      | Some ds \<Rightarrow>
          if length ds \<noteq> length (data series) then Inl EngineError
          else Inr (map (\<lambda>(d, ob). (to_period eng ''M'' d, obs_value ob))
                      (filter (\<lambda>(d, ob). obs_period ob \<noteq> ''M13'') (zip ds (data series)))))"
  using assms
  by (simp add: parse_series_def assign_date_def index_by_period_def Let_def
      split: option.splits)

text \<open>
  Claim C5. The mask that drops the \<^verbatim>\<open>M13\<close> rows (line 129) is applied to the table
  after \<^verbatim>\<open>pd.to_datetime\<close> has been given the date strings of all rows (line 126).
  For the monthly series of 2020 with an \<^verbatim>\<open>M13\<close> row the column holds
  \<^verbatim>\<open>2020-13\<close>, which is no month: the conversion is refused and
  \<^verbatim>\<open>parse_series\<close> raises instead of returning the months. The same series without
  the \<^verbatim>\<open>M13\<close> row parses to its three months.
\<close>

theorem m13_row_fails_date_conversion:
  "map obs_period (data demo_monthly) = [''M13'', ''M03'', ''M02'', ''M01''] \<and>
   map (\<lambda>ob. obs_year ob @ str_replace ''M'' ''-'' (obs_period ob)) (data demo_monthly)
     = [''2020-13'', ''2020-03'', ''2020-02'', ''2020-01''] \<and>
   to_datetime demo_engine [''2020-13'', ''2020-03'', ''2020-02'', ''2020-01''] = None \<and>
   parse_series demo_engine demo_monthly = Inl EngineError \<and>
   parse_series demo_engine demo_months
     = Inr [(24243, ''4.4''), (24242, ''3.5''), (24241, ''3.6'')]"
  by (simp add: parse_defs engine_defs)

subsection \<open>The result assembler\<close>

lemma insort_key_cong_on:
  "f x = g x \<Longrightarrow> \<forall>y \<in> set xs. f y = g y \<Longrightarrow> insort_key f x xs = insort_key g x xs"
  by (induction xs) auto

lemma sort_key_cong_on:
  "\<forall>y \<in> set xs. f y = g y \<Longrightarrow> sort_key f xs = sort_key g xs"
proof (induction xs)
  case Nil
  show ?case by simp
next
  case (Cons x xs)
  then have "sort_key f xs = sort_key g xs" by simp
  moreover have "insort_key f x (sort_key g xs) = insort_key g x (sort_key g xs)"
    by (rule insort_key_cong_on) (use Cons.prems in auto)
  ultimately show ?case by simp
qed

lemma zip_map_same: "zip (map f xs) (map g xs) = map (\<lambda>x. (f x, g x)) xs"
  by (induction xs) simp_all

lemma cast_cells_Some:
  "cast_cells f (map Some vs) = Inr xs \<Longrightarrow> xs = map f vs \<and> (\<forall>v \<in> set vs. f v \<noteq> None)"
  by (induction vs arbitrary: xs) (auto split: option.splits sum.splits)

lemma cast_columns_names:
  "cast_columns f cols = Inr cols' \<Longrightarrow> map fst cols' = map fst cols"
  by (induction f cols arbitrary: cols' rule: cast_columns.induct)
     (auto split: sum.splits)

lemma sort_index_sorted: "sorted (frame_index (sort_index fr))"
  by (simp add: sort_index_def Let_def sorted_sort_key)

lemma sort_index_names:
  "map fst (frame_columns (sort_index fr)) = map fst (frame_columns fr)"
  by (simp add: sort_index_def Let_def case_prod_unfold comp_def)

lemma sort_index_column_length:
  "(k, cs) \<in> set (frame_columns (sort_index fr)) \<Longrightarrow>
     length cs = length (frame_index (sort_index fr))"
  by (auto simp add: sort_index_def Let_def)

lemma frame_of_dict_names:
  "frame_of_dict d = Inr fr \<Longrightarrow> map fst (frame_columns fr) = map fst d"
  by (auto simp add: frame_of_dict_def Let_def case_prod_unfold comp_def
      split: list.splits if_splits)

lemma dict_set_keys: "set (map fst (dict_set d k v)) = insert k (set (map fst d))"
  by (induction d k v rule: dict_set.induct) auto

lemma parse_all_keys:
  "parse_all eng d0 rs = Inr d \<Longrightarrow> set (map fst d) = set (map fst d0) \<union> seriesID ` set rs"
proof (induction rs arbitrary: d0)
  case Nil
  then show ?case by simp
next
  case (Cons r rs)
  then obtain s where s: "parse_series eng r = Inr s"
    and rest: "parse_all eng (dict_set d0 (seriesID r) s) rs = Inr d"
    by (auto split: sum.splits)
  have "set (map fst d) = set (map fst (dict_set d0 (seriesID r) s)) \<union> seriesID ` set rs"
    by (rule Cons.IH [OF rest])
  also have "\<dots> = insert (seriesID r) (set (map fst d0)) \<union> seriesID ` set rs"
    unfolding dict_set_keys ..
  finally show ?case by auto
qed

text \<open>
  Claim C7. When \<^verbatim>\<open>get_series\<close> is called with a bare string and returns, it returns
  a series, not a table, and the index of the series is sorted ascending. The fetch
  returned at least one series and none without data. When it returned one series, as
  the provider does for one id, the result holds one entry for each row of the parsed
  series: the row numbers sorted by their period, each value the \<^verbatim>\<open>float\<close> of the
  row's string.
\<close>

theorem bare_string_returns_sorted_float_series:
  assumes run: "get_series eng net (Str s) sy ey key0 errors w = (Inr res, w')"
  shows "\<exists>col results.
      res = Series col \<and> sorted (map fst col) \<and>
      get_json_series net (Str s) sy ey key0 w = (Inr results, w') \<and>
      results \<noteq> [] \<and> (\<forall>r \<in> set results. data r \<noteq> []) \<and>
      (\<forall>r. results = [r] \<longrightarrow>
         (\<exists>parsed. parse_series eng r = Inr parsed \<and>
            (\<forall>i < length parsed. to_float eng (snd (parsed ! i)) \<noteq> None) \<and>
            col = map (\<lambda>i. (fst (parsed ! i), to_float eng (snd (parsed ! i))))
                    (sort_key (\<lambda>i. fst (parsed ! i)) [0..<length parsed])))"
proof -
  obtain fres w1 where f: "get_json_series net (Str s) sy ey key0 w = (fres, w1)"
    by fastforce
  with run obtain results where fres: "fres = Inr results"
    by (cases fres) (auto simp: get_series_def)
  let ?ids = "map seriesID (filter (\<lambda>res. data res = []) results)"
  have noinv: "?ids = []"
    using run f fres by (auto simp: get_series_def Let_def split: if_splits)
  then have valid: "\<forall>r \<in> set results. data r \<noteq> []"
    by (auto simp: filter_empty_conv)
  then have fv: "filter (\<lambda>result. data result \<noteq> []) results = results" by simp
  from run f fres noinv fv obtain d fr fr' k cs rest where
    w': "w' = w1"
    and d: "parse_all eng [] results = Inr d"
    and fr: "frame_of_dict d = Inr fr"
    and fr': "map_float eng fr = Inr fr'"
    and cols: "frame_columns (sort_index fr') = (k, cs) # rest"
    and res: "res = Series (zip (frame_index (sort_index fr')) cs)"
    by (auto simp: get_series_def Let_def split: sum.splits list.splits)
  define col where "col = zip (frame_index (sort_index fr')) cs"
  have "length cs = length (frame_index (sort_index fr'))"
    by (rule sort_index_column_length [of k]) (simp add: cols)
  then have "map fst col = frame_index (sort_index fr')" by (simp add: col_def)
  then have sorted: "sorted (map fst col)" by (simp add: sort_index_sorted)
  have ne: "results \<noteq> []"
  proof
    assume "results = []"
    with d have "d = []" by simp
    with fr have "frame_columns fr = []" by (auto simp add: frame_of_dict_def)
    with fr' have "frame_columns fr' = []" by (auto simp: map_float_def split: sum.splits)
    then have "frame_columns (sort_index fr') = []" by (simp add: sort_index_def Let_def)
    with cols show False by simp
  qed
  have single: "\<exists>parsed. parse_series eng r = Inr parsed \<and>
            (\<forall>i < length parsed. to_float eng (snd (parsed ! i)) \<noteq> None) \<and>
            col = map (\<lambda>i. (fst (parsed ! i), to_float eng (snd (parsed ! i))))
                    (sort_key (\<lambda>i. fst (parsed ! i)) [0..<length parsed])"
    if one: "results = [r]" for r
  proof -
    from d one obtain parsed where p: "parse_series eng r = Inr parsed"
      and dd: "d = [(seriesID r, parsed)]"
      by (auto split: sum.splits)
    let ?idx = "map fst parsed"
    have frv: "fr = \<lparr>frame_index = ?idx,
        frame_columns = [(seriesID r, map Some (map snd parsed))]\<rparr>"
      using fr dd by (simp add: frame_of_dict_def case_prod_unfold comp_def)
    from fr' frv obtain xs where xs: "cast_cells (to_float eng) (map Some (map snd parsed)) = Inr xs"
      and fr'v: "fr' = \<lparr>frame_index = ?idx, frame_columns = [(seriesID r, xs)]\<rparr>"
      by (auto simp: map_float_def split: sum.splits)
    from cast_cells_Some [OF xs] have xsv: "xs = map (to_float eng) (map snd parsed)"
      and ok: "\<forall>v \<in> set (map snd parsed). to_float eng v \<noteq> None" by simp_all
    let ?order = "sort_key (\<lambda>i. ?idx ! i) [0..<length ?idx]"
    have o: "?order = sort_key (\<lambda>i. fst (parsed ! i)) [0..<length parsed]"
      by (simp, rule sort_key_cong_on) simp
    have inb: "\<forall>i \<in> set ?order. i < length parsed" by simp
    have "col = zip (map (\<lambda>i. ?idx ! i) ?order) (map (\<lambda>i. xs ! i) ?order)"
      using cols fr'v by (simp add: col_def sort_index_def Let_def)
    also have "\<dots> = map (\<lambda>i. (?idx ! i, xs ! i)) ?order"
      by (rule zip_map_same)
    also have "\<dots> = map (\<lambda>i. (fst (parsed ! i), to_float eng (snd (parsed ! i)))) ?order"
    proof (rule map_cong [OF refl])
      fix i assume "i \<in> set ?order"
      with inb have i: "i < length parsed" by blast
      then have "?idx ! i = fst (parsed ! i)" by (rule nth_map)
      moreover have "xs ! i = to_float eng (snd (parsed ! i))"
        unfolding xsv using i by (simp only: nth_map length_map)
      ultimately show "(?idx ! i, xs ! i) = (fst (parsed ! i), to_float eng (snd (parsed ! i)))"
        by (simp only:)
    qed
    finally have c: "col = map (\<lambda>i. (fst (parsed ! i), to_float eng (snd (parsed ! i))))
                    (sort_key (\<lambda>i. fst (parsed ! i)) [0..<length parsed])"
      unfolding o .
    have "\<forall>i < length parsed. to_float eng (snd (parsed ! i)) \<noteq> None"
      using ok by simp
    with p c show ?thesis by blast
  qed
  show ?thesis
    using res sorted f fres w' ne valid single unfolding col_def by blast
qed

lemmas assemble_defs = get_series_def frame_of_dict_def map_float_def sort_index_def
  monthly_net_def twice_empty_net_def

theorem bare_string_returns_sorted_float_series_witness:
  "get_series demo_engine monthly_net (Str ''LNS14'') (Some 2020) (Some 2020) None ''raise''
      demo_world =
     (Inr (Series [(24241, Some (36, 1)), (24242, Some (35, 1)), (24243, Some (44, 1))]),
      demo_world\<lparr>sent := [form_body (Seq [''LNS14'']) 2020 2020 None]\<rparr>) \<and>
   (\<exists>col results.
      Series [(24241, Some (36, 1)), (24242, Some (35, 1)), (24243, Some (44, 1))] = Series col \<and>
      sorted (map fst col) \<and>
      get_json_series monthly_net (Str ''LNS14'') (Some 2020) (Some 2020) None demo_world =
        (Inr results, demo_world\<lparr>sent := [form_body (Seq [''LNS14'']) 2020 2020 None]\<rparr>) \<and>
      results \<noteq> [] \<and> (\<forall>r \<in> set results. data r \<noteq> []) \<and>
      (\<forall>r. results = [r] \<longrightarrow>
         (\<exists>parsed. parse_series demo_engine r = Inr parsed \<and>
            (\<forall>i < length parsed. to_float demo_engine (snd (parsed ! i)) \<noteq> None) \<and>
            col = map (\<lambda>i. (fst (parsed ! i), to_float demo_engine (snd (parsed ! i))))
                    (sort_key (\<lambda>i. fst (parsed ! i)) [0..<length parsed]))))"
proof -
  have h: "get_series demo_engine monthly_net (Str ''LNS14'') (Some 2020) (Some 2020) None
      ''raise'' demo_world =
     (Inr (Series [(24241, Some (36, 1)), (24242, Some (35, 1)), (24243, Some (44, 1))]),
      demo_world\<lparr>sent := [form_body (Seq [''LNS14'']) 2020 2020 None]\<rparr>)"
    by (simp add: assemble_defs fetch_defs demo_defs parse_defs engine_defs)
  show ?thesis
    by (intro conjI h bare_string_returns_sorted_float_series [OF h])
qed

lemma length_filter_all_iff:
  "length (filter P xs) = length xs \<longleftrightarrow> (\<forall>x \<in> set xs. P x)"
proof (induction xs)
  case Nil
  show ?case by simp
next
  case (Cons x xs)
  have "length (filter P xs) \<noteq> Suc (length xs)"
    using length_filter_le [of P xs] by arith
  with Cons show ?case by auto
qed

lemma parse_series_error:
  "parse_series eng r = Inl e \<Longrightarrow> e \<noteq> ValueError (NoDataIds x)"
  by (auto simp: parse_series_def Let_def split: if_splits list.splits sum.splits
      dest: assign_date_error)

lemma parse_all_error:
  "parse_all eng d rs = Inl e \<Longrightarrow> e \<noteq> ValueError (NoDataIds x)"
  by (induction rs arbitrary: d) (auto split: sum.splits dest: parse_series_error)

lemma frame_of_dict_error: "frame_of_dict d = Inl e \<Longrightarrow> e = EngineError"
  by (auto simp: frame_of_dict_def Let_def split: list.splits if_splits)

lemma cast_cells_error: "cast_cells f cs = Inl e \<Longrightarrow> \<exists>s. e = ValueError (NotAFloat s)"
  by (induction f cs rule: cast_cells.induct) (auto split: sum.splits option.splits)

lemma cast_columns_error: "cast_columns f cols = Inl e \<Longrightarrow> \<exists>s. e = ValueError (NotAFloat s)"
  by (induction f cols rule: cast_columns.induct)
     (auto split: sum.splits dest: cast_cells_error)

lemma map_float_error: "map_float eng fr = Inl e \<Longrightarrow> \<exists>s. e = ValueError (NotAFloat s)"
  by (auto simp: map_float_def split: sum.splits dest: cast_columns_error)

lemma map_float_names:
  "map_float eng fr = Inr fr' \<Longrightarrow> map fst (frame_columns fr') = map fst (frame_columns fr)"
  by (auto simp: map_float_def split: sum.splits dest: cast_columns_names)

text \<open>
  The rule of lines 161-172, for a fetch that returned some series without data. The
  error naming them is raised exactly when the series argument is a bare string, or
  there are as many series without data as \<^verbatim>\<open>len(series)\<close>, or the policy is
  \<^verbatim>\<open>"raise"\<close>; otherwise a warning is given and a table that is returned has exactly
  the series with data as its columns. When the fetch returned as many series as were
  requested, the count test says that every returned series is without data.
\<close>

lemma empty_series_policy:
  assumes fetch: "get_json_series net series sy ey key0 w = (Inr results, w1)"
    and some: "\<exists>r \<in> set results. data r = []"
    and ids: "ids = map seriesID (filter (\<lambda>r. data r = []) results)"
    and fatal: "fatal \<longleftrightarrow> is_str series \<or> length ids = len series \<or> errors = ''raise''"
    and run: "get_series eng net series sy ey key0 errors w = (res, w')"
  shows "(\<exists>x. res = Inl (ValueError (NoDataIds x))) \<longleftrightarrow> fatal"
    and "fatal \<Longrightarrow> res = Inl (ValueError (NoDataIds ids)) \<and> w' = w1"
    and "\<not> fatal \<Longrightarrow> w' = w1\<lparr>warned := warned w1 @ [NoDataIds ids]\<rparr>"
    and "\<not> fatal \<Longrightarrow> res = Inr t \<Longrightarrow>
           \<exists>fr. t = Table fr \<and>
             set (map fst (frame_columns fr)) = seriesID ` {r \<in> set results. data r \<noteq> []}"
    and "length results = len series \<Longrightarrow>
           length ids = len series \<longleftrightarrow> (\<forall>r \<in> set results. data r = [])"
proof -
  have ne: "ids \<noteq> []" using some ids by (auto simp: filter_empty_conv)
  let ?valid = "filter (\<lambda>result. data result \<noteq> []) results"
  let ?w2 = "w1\<lparr>warned := warned w1 @ [NoDataIds ids]\<rparr>"
  have unf: "get_series eng net series sy ey key0 errors w =
      (if fatal then (Inl (ValueError (NoDataIds ids)), w1)
       else
         (case parse_all eng [] ?valid of
            Inl e \<Rightarrow> (Inl e, ?w2)
          | Inr d \<Rightarrow>
              (case frame_of_dict d of
                 Inl e \<Rightarrow> (Inl e, ?w2)
               | Inr fr \<Rightarrow>
                   (case map_float eng fr of
                      Inl e \<Rightarrow> (Inl e, ?w2)
                    | Inr fr' \<Rightarrow>
                        if is_str series then
                          (case frame_columns (sort_index fr') of
                             [] \<Rightarrow> (Inl IndexError, ?w2)
                           | (k, cs) # _ \<Rightarrow>
                               (Inr (Series (zip (frame_index (sort_index fr')) cs)), ?w2))
                        else (Inr (Table (sort_index fr')), ?w2)))))"
    unfolding get_series_def fetch prod.case sum.case Let_def ids [symmetric]
    using ne fatal by simp
  have f: "fatal \<Longrightarrow> res = Inl (ValueError (NoDataIds ids)) \<and> w' = w1"
    using run unfolding unf by simp
  have nstr: "\<not> fatal \<Longrightarrow> \<not> is_str series" using fatal by simp
  have nf: "(res, w') =
      (case parse_all eng [] ?valid of
         Inl e \<Rightarrow> (Inl e, ?w2)
       | Inr d \<Rightarrow>
           (case frame_of_dict d of
              Inl e \<Rightarrow> (Inl e, ?w2)
            | Inr fr \<Rightarrow>
                (case map_float eng fr of
                   Inl e \<Rightarrow> (Inl e, ?w2)
                 | Inr fr' \<Rightarrow> (Inr (Table (sort_index fr')), ?w2))))" if "\<not> fatal"
  proof -
    have "get_series eng net series sy ey key0 errors w =
      (case parse_all eng [] ?valid of
         Inl e \<Rightarrow> (Inl e, ?w2)
       | Inr d \<Rightarrow>
           (case frame_of_dict d of
              Inl e \<Rightarrow> (Inl e, ?w2)
            | Inr fr \<Rightarrow>
                (case map_float eng fr of
                   Inl e \<Rightarrow> (Inl e, ?w2)
                 | Inr fr' \<Rightarrow> (Inr (Table (sort_index fr')), ?w2))))"
      unfolding unf using nstr [OF that] that by (simp cong: sum.case_cong)
    with run show ?thesis by simp
  qed
  show w2: "\<not> fatal \<Longrightarrow> w' = ?w2"
    using nf by (auto split: sum.splits)
  have noids: "\<not> fatal \<Longrightarrow> res \<noteq> Inl (ValueError (NoDataIds x))" for x
    using nf
    by (auto split: sum.splits
        dest: parse_all_error frame_of_dict_error map_float_error)
  show "(\<exists>x. res = Inl (ValueError (NoDataIds x))) \<longleftrightarrow> fatal"
    using f noids by blast
  show "fatal \<Longrightarrow> res = Inl (ValueError (NoDataIds ids)) \<and> w' = w1" by (rule f)
  show "\<exists>fr. t = Table fr \<and>
      set (map fst (frame_columns fr)) = seriesID ` {r \<in> set results. data r \<noteq> []}"
    if "\<not> fatal" "res = Inr t"
  proof -
    from nf [OF that(1)] that(2) obtain d fr fr' where
      d: "parse_all eng [] ?valid = Inr d" and fr: "frame_of_dict d = Inr fr"
      and fr': "map_float eng fr = Inr fr'" and t: "t = Table (sort_index fr')"
      by (auto split: sum.splits)
    have "map fst (frame_columns (sort_index fr')) = map fst d"
      using sort_index_names [of fr'] map_float_names [OF fr'] frame_of_dict_names [OF fr]
      by simp
    then have "set (map fst (frame_columns (sort_index fr'))) = set (map fst d)"
      by (rule arg_cong)
    also have "\<dots> = seriesID ` set ?valid"
      using parse_all_keys [OF d] by simp
    also have "\<dots> = seriesID ` {r \<in> set results. data r \<noteq> []}"
      by simp
    finally show ?thesis using t by blast
  qed
  show "length ids = len series \<longleftrightarrow> (\<forall>r \<in> set results. data r = [])"
    if "length results = len series"
  proof -
    have "length ids = length (filter (\<lambda>r. data r = []) results)" by (simp add: ids)
    then show ?thesis
      using that length_filter_all_iff [of "\<lambda>r. data r = []" results] by simp
  qed
qed

text \<open>
  Claim C4. The count test of line 168 compares the number of series without data with
  \<^verbatim>\<open>len(series)\<close>. For the request of the id \<^verbatim>\<open>A\<close> twice under the policy
  \<^verbatim>\<open>"ignore"\<close>, with a provider that has no data for \<^verbatim>\<open>A\<close>, the two paths of
  \<^verbatim>\<open>get_json_series\<close> differ. Over 1980 to 2026 the pagination loop merges the
  answers by id into one series without data, one is not two, and the call gives a
  warning and returns an empty table although every requested series failed. Over
  2020 to 2026 the single call passes both entries on, two is two, and the call raises.
\<close>

theorem duplicate_ids_all_empty_not_raised:
  "get_series demo_engine twice_empty_net (Seq [''A'', ''A'']) (Some 1980) None (Some ''k'')
      ''ignore'' demo_world =
     (Inr (Table \<lparr>frame_index = [], frame_columns = []\<rparr>),
      demo_world\<lparr>sent := [form_body (Seq [''A'', ''A'']) 1980 1998 (Some ''k''),
                            form_body (Seq [''A'', ''A'']) 1999 2018 (Some ''k''),
                            form_body (Seq [''A'', ''A'']) 2019 2026 (Some ''k'')],
                  warned := [NoDataIds [''A'']]\<rparr>) \<and>
   get_series demo_engine twice_empty_net (Seq [''A'', ''A'']) (Some 2020) None (Some ''k'')
      ''ignore'' demo_world =
     (Inl (ValueError (NoDataIds [''A'', ''A''])),
      demo_world\<lparr>sent := [form_body (Seq [''A'', ''A'']) 2020 2026 (Some ''k'')]\<rparr>)"
  by (simp add: assemble_defs fetch_defs demo_defs parse_defs engine_defs paginate.simps)

end
